theory Spec2Isabelle
  imports Complex_Main "HOL-Library.AList" "HOL-Library.List_Lexorder" "HOL-Library.Char_ord"
begin

section \<open>Exceptions\<close>

datatype error = Error string | SyntaxError string | TypeError string

section \<open>Plain objects used as maps\<close>

text \<open>
  Several functions keep a map in a plain JavaScript object. Such an object is modelled
  by the association list of its own properties in insertion order (an assignment to an
  existing key keeps the key's place). Two things differ from a list:
  a read \<open>obj[k]\<close> of a key that is no own property finds the member of
  \<open>Object.prototype\<close> of that name, if there is one, and \<open>Object.keys\<close> lists the own keys
  that are array indices first, in ascending numeric order, and the other keys after them
  in insertion order.
\<close>

definition prototype_names :: "string list" where
  "prototype_names =
     [''constructor'', ''__defineGetter__'', ''__defineSetter__'', ''hasOwnProperty'',
      ''__lookupGetter__'', ''__lookupSetter__'', ''isPrototypeOf'', ''propertyIsEnumerable'',
      ''toString'', ''valueOf'', ''__proto__'', ''toLocaleString'']"

text \<open>
  An array index is the canonical decimal numeral of a number below \<open>2\<^sup>3\<^sup>2 - 1\<close>.
\<close>

definition array_index :: "string \<Rightarrow> int option" where
  "array_index s =
     (if s = [] then None
      else if list_all (\<lambda>c. c \<in> set ''0123456789'') s then
        (if hd s = CHR ''0'' \<and> 1 < length s then None
         else (let n = foldl (\<lambda>acc c. 10 * acc + (of_char c - 48)) (0 :: int) s
               in if n < 4294967295 then Some n else None))
      else None)"

definition object_keys :: "(string \<times> 'v) list \<Rightarrow> string list" where
  "object_keys obj =
     sort_key (\<lambda>k. case array_index k of Some i \<Rightarrow> i | None \<Rightarrow> 0)
       (filter (\<lambda>k. array_index k \<noteq> None) (map fst obj)) @
     filter (\<lambda>k. array_index k = None) (map fst obj)"

section \<open>Topological sorter (utils/topological-sort.ts)\<close>

text \<open>
  The dependency map is such an object, of type \<open>Record<string, string[]>\<close>.
  \<open>deps_of\<close> is the iteration of \<open>dependencyMap[node] || []\<close> by \<open>for ... of\<close> or by a
  spread: the own array of the node, nothing when the node has no property, and a
  \<open>TypeError\<close> when the read finds a member of \<open>Object.prototype\<close>, which is truthy and
  not iterable.
\<close>

type_synonym dependency_map = "(string \<times> string list) list"

definition deps_of :: "dependency_map \<Rightarrow> string \<Rightarrow> error + string list" where
  "deps_of dependencyMap node =
     (case map_of dependencyMap node of
        Some ds \<Rightarrow> Inr ds
      | None \<Rightarrow>
          if node \<in> set prototype_names
          then Inl (TypeError ''(dependencyMap[node] || []) is not iterable'')
          else Inr [])"

text \<open>
  The closure \<open>dfs\<close> mutates four variables of the enclosing function (\<open>sorted\<close>,
  \<open>cycles\<close>, \<open>visited\<close>, \<open>visiting\<close>) and the array \<open>path\<close> it is handed, which
  all recursive calls of one top-level call share. They form the state that is threaded
  through. \<open>cycles.push(path)\<close> stores the array itself; once it is stored every
  enclosing call returns at once without touching the array again, so the stored value is
  the path at the moment of the push.
\<close>

record dfs_state =
  sorted_list :: "string list"
  cycles_list :: "string list list"
  visited :: "string set"
  visiting :: "string set"
  path :: "string list"

text \<open>
  \<open>dfs\<close> and the \<open>for\<close> loop over the neighbours. The first argument bounds the
  recursion depth; \<open>None\<close> means the bound was too small. \<open>Inl\<close> is an exception, which
  nothing catches. The boolean is the return value of \<open>dfs\<close>; for the loop, \<open>True\<close> means
  that the loop made the enclosing \<open>dfs\<close> return \<open>true\<close>.
\<close>

fun dfs :: "nat \<Rightarrow> dependency_map \<Rightarrow> string \<Rightarrow> dfs_state \<Rightarrow> (error + bool \<times> dfs_state) option"
  and dfs_neighbors ::
    "nat \<Rightarrow> dependency_map \<Rightarrow> string list \<Rightarrow> dfs_state \<Rightarrow> (error + bool \<times> dfs_state) option"
where
  "dfs 0 dependencyMap node st = None"
| "dfs (Suc n) dependencyMap node st =
     (if node \<in> visited st then Some (Inr (False, st))
      else if node \<in> visiting st then
        Some (Inr (True, st\<lparr>cycles_list := cycles_list st @ [path st]\<rparr>))
      else
        (case deps_of dependencyMap node of
           Inl e \<Rightarrow> Some (Inl e)
         | Inr neighbors \<Rightarrow>
             (case dfs_neighbors n dependencyMap neighbors
                     (st\<lparr>visiting := insert node (visiting st), path := path st @ [node]\<rparr>) of
                None \<Rightarrow> None
              | Some (Inl e) \<Rightarrow> Some (Inl e)
              | Some (Inr (True, st')) \<Rightarrow> Some (Inr (True, st'))
              | Some (Inr (False, st')) \<Rightarrow>
                  Some (Inr (False, st'\<lparr>visiting := visiting st' - {node},
                                         visited := insert node (visited st'),
                                         sorted_list := sorted_list st' @ [node],
                                         path := butlast (path st')\<rparr>)))))"
| "dfs_neighbors n dependencyMap [] st = Some (Inr (False, st))"
| "dfs_neighbors n dependencyMap (neighbor # rest) st =
     (case dfs n dependencyMap neighbor st of
        None \<Rightarrow> None
      | Some (Inl e) \<Rightarrow> Some (Inl e)
      | Some (Inr (True, st')) \<Rightarrow> Some (Inr (True, st'))
      | Some (Inr (False, st')) \<Rightarrow> dfs_neighbors n dependencyMap rest st')"

text \<open>The loop over \<open>Object.keys(dependencyMap)\<close>; every call gets a fresh \<open>[]\<close> as path.\<close>

fun process_nodes ::
  "nat \<Rightarrow> dependency_map \<Rightarrow> string list \<Rightarrow> dfs_state \<Rightarrow> (error + dfs_state) option" where
  "process_nodes n dependencyMap [] st = Some (Inr st)"
| "process_nodes n dependencyMap (node # rest) st =
     (if node \<notin> visited st then
        (case dfs n dependencyMap node (st\<lparr>path := []\<rparr>) of
           None \<Rightarrow> None
         | Some (Inl e) \<Rightarrow> Some (Inl e)
         | Some (Inr (r, st')) \<Rightarrow> process_nodes n dependencyMap rest st')
      else process_nodes n dependencyMap rest st)"

definition initial_state :: dfs_state where
  "initial_state = \<lparr>sorted_list = [], cycles_list = [], visited = {}, visiting = {}, path = []\<rparr>"

text \<open>All nodes of the graph: the keys and everything a key depends on.\<close>

definition graph_nodes :: "dependency_map \<Rightarrow> string list" where
  "graph_nodes dependencyMap = map fst dependencyMap @ concat (map snd dependencyMap)"

text \<open>The recursion of \<open>dfs\<close> is never deeper than the number of nodes plus one.\<close>

definition depth_bound :: "dependency_map \<Rightarrow> nat" where
  "depth_bound dependencyMap = Suc (length (graph_nodes dependencyMap))"

record sort_result =
  sorted_res :: "string list"
  cycles_res :: "string list list"

definition topologicalSortWithTransitiveResolution ::
  "dependency_map \<Rightarrow> (error + sort_result) option" where
  "topologicalSortWithTransitiveResolution dependencyMap =
     (case process_nodes (depth_bound dependencyMap) dependencyMap (object_keys dependencyMap)
             initial_state of
        None \<Rightarrow> None
      | Some (Inl e) \<Rightarrow> Some (Inl e)
      | Some (Inr st) \<Rightarrow> Some (Inr \<lparr>sorted_res = rev (sorted_list st), cycles_res = cycles_list st\<rparr>))"

text \<open>Nodes that are fully processed or in progress.\<close>

definition marked :: "dfs_state \<Rightarrow> string set" where
  "marked st = visited st \<union> visiting st"

text \<open>
  The dependency graph of a map: an edge from every key to each element of its array.
  The graph is acyclic when \<^term>\<open>acyclic\<close> holds of this relation.
\<close>

definition dep_edges :: "dependency_map \<Rightarrow> (string \<times> string) set" where
  "dep_edges dependencyMap = {(u, v). \<exists>ds. map_of dependencyMap u = Some ds \<and> v \<in> set ds}"




section \<open>Ordering of resource files (utils/arrays.ts, utils/sorting.ts)\<close>

text \<open>\<open>uniqueBy\<close>: the loop with the set \<open>seen\<close> and the array \<open>result\<close>.\<close>

fun uniqueBy_loop :: "('a \<Rightarrow> 'k) \<Rightarrow> 'a list \<Rightarrow> 'k set \<Rightarrow> 'a list \<Rightarrow> 'a list" where
  "uniqueBy_loop key [] seen result = result"
| "uniqueBy_loop key (item # arr) seen result =
     (let k = key item in
      if k \<in> seen then uniqueBy_loop key arr seen result
      else uniqueBy_loop key arr (insert k seen) (result @ [item]))"

definition uniqueBy :: "'a list \<Rightarrow> ('a \<Rightarrow> 'k) \<Rightarrow> 'a list" where
  "uniqueBy arr key = uniqueBy_loop key arr {} []"

definition unique :: "'a list \<Rightarrow> 'a list" where
  "unique arr = uniqueBy arr (\<lambda>item. item)"

record ResourceFile =
  filePath :: string
  resourceType :: string
  url :: string
  name :: string
  kind :: "string option"

text \<open>
  The \<open>forEach\<close> that fills \<open>dependencyMap\<close> in \<open>sortResourceFilesByDependencies\<close>. It
  merges the lists of files with the same URL; the spread of
  \<open>dependencyMap[file.url] || []\<close> throws when the URL names a member of
  \<open>Object.prototype\<close>. \<open>extractDependenciesFromResourceFile\<close> reads the file from disk; it
  is the parameter \<open>extractDeps\<close> here.
\<close>

definition addDependencies ::
  "(ResourceFile \<Rightarrow> string list) \<Rightarrow> error + dependency_map \<Rightarrow> ResourceFile \<Rightarrow> error + dependency_map" where
  "addDependencies extractDeps acc file =
     (case acc of
        Inl e \<Rightarrow> Inl e
      | Inr dependencyMap \<Rightarrow>
          (let newDeps = extractDeps file in
           case deps_of dependencyMap (url file) of
             Inl e \<Rightarrow> Inl e
           | Inr oldDeps \<Rightarrow>
               Inr (AList.update (url file) (unique (oldDeps @ newDeps)) dependencyMap)))"

definition buildDependencyMap ::
  "(ResourceFile \<Rightarrow> string list) \<Rightarrow> ResourceFile list \<Rightarrow> error + dependency_map" where
  "buildDependencyMap extractDeps resourceFiles =
     foldl (addDependencies extractDeps) (Inr []) resourceFiles"

text \<open>\<open>Array.prototype.indexOf\<close>: the first index, or \<open>-1\<close>.\<close>

fun indexOf :: "'a list \<Rightarrow> 'a \<Rightarrow> int" where
  "indexOf [] x = -1"
| "indexOf (y # ys) x =
     (if y = x then 0 else (let i = indexOf ys x in if i < 0 then -1 else i + 1))"

text \<open>
  The comparator that \<open>sortResourceFilesByDependencies\<close> returns, as a function of the
  list \<open>sorted\<close> it closes over. \<open>String.prototype.localeCompare\<close> belongs to the host
  and is the parameter \<open>localeCompare\<close>.
\<close>

definition dependencyComparator ::
  "(string \<Rightarrow> string \<Rightarrow> int) \<Rightarrow> string list \<Rightarrow> ResourceFile \<Rightarrow> ResourceFile \<Rightarrow> int" where
  "dependencyComparator localeCompare sorted_urls a b =
     (let aIndex = indexOf sorted_urls (url a);
          bIndex = indexOf sorted_urls (url b)
      in if aIndex > -1 \<and> bIndex > -1 then bIndex - aIndex
         else if aIndex > -1 then 1
         else if bIndex > -1 then -1
         else localeCompare (url a) (url b))"

definition sortResourceFilesByDependencies ::
  "(string \<Rightarrow> string \<Rightarrow> int) \<Rightarrow> (ResourceFile \<Rightarrow> string list) \<Rightarrow> ResourceFile list
     \<Rightarrow> (error + (ResourceFile \<Rightarrow> ResourceFile \<Rightarrow> int)) option" where
  "sortResourceFilesByDependencies localeCompare extractDeps resourceFiles =
     (case buildDependencyMap extractDeps resourceFiles of
        Inl e \<Rightarrow> Some (Inl e)
      | Inr dependencyMap \<Rightarrow>
          (case topologicalSortWithTransitiveResolution dependencyMap of
             None \<Rightarrow> None
           | Some (Inl e) \<Rightarrow> Some (Inl e)
           | Some (Inr res) \<Rightarrow> Some (Inr (dependencyComparator localeCompare (sorted_res res)))))"

text \<open>
  What the files say about their dependencies: an edge from the URL of a file to every
  URL that \<open>extractDependenciesFromResourceFile\<close> finds in it.
\<close>

definition file_dependencies ::
  "(ResourceFile \<Rightarrow> string list) \<Rightarrow> ResourceFile list \<Rightarrow> (string \<times> string) set" where
  "file_dependencies extractDeps resourceFiles =
     {(u, d). \<exists>f \<in> set resourceFiles. url f = u \<and> d \<in> set (extractDeps f)}"

text \<open>
  \<open>Array.prototype.sort\<close> with a comparator: for a consistent comparator the host returns
  the stable sorted permutation, which is what insertion from left to right, each element
  behind the elements it does not precede, computes.
\<close>

fun insert_by :: "('a \<Rightarrow> 'a \<Rightarrow> int) \<Rightarrow> 'a \<Rightarrow> 'a list \<Rightarrow> 'a list" where
  "insert_by cmp x [] = [x]"
| "insert_by cmp x (y # ys) = (if cmp x y < 0 then x # y # ys else y # insert_by cmp x ys)"

definition array_sort :: "('a \<Rightarrow> 'a \<Rightarrow> int) \<Rightarrow> 'a list \<Rightarrow> 'a list" where
  "array_sort cmp xs = foldl (\<lambda>acc x. insert_by cmp x acc) [] xs"

text \<open>
  A consistent comparator in the sense of the language standard: the sign is antisymmetric
  and "not after" is transitive.
\<close>

definition consistent_comparator :: "('a \<Rightarrow> 'a \<Rightarrow> int) \<Rightarrow> bool" where
  "consistent_comparator cmp \<longleftrightarrow>
     (\<forall>a b. (cmp a b < 0) = (cmp b a > 0)) \<and>
     (\<forall>a b c. cmp a b \<le> 0 \<longrightarrow> cmp b c \<le> 0 \<longrightarrow> cmp a c \<le> 0)"


text \<open>Example inputs, after the fixtures of the test suite.\<close>

definition stubResourceFile :: "string \<Rightarrow> ResourceFile" where
  "stubResourceFile u =
     \<lparr>filePath = u @ ''.json'', resourceType = ''ValueSet'', url = u, name = u, kind = None\<rparr>"

definition codePointCompare :: "string \<Rightarrow> string \<Rightarrow> int" where
  "codePointCompare x y = (if x < y then - 1 else if x = y then 0 else 1)"

text \<open>The file with URL \<open>b\<close> depends on the one with URL \<open>a\<close>.\<close>

definition ex_extract :: "ResourceFile \<Rightarrow> string list" where
  "ex_extract f = (if url f = ''b'' then [''a''] else [])"


text \<open>The file with URL \<open>a\<close> depends on a URL that is the name of an inherited member.\<close>

definition inherited_extract :: "ResourceFile \<Rightarrow> string list" where
  "inherited_extract f = (if url f = ''a'' then [''constructor''] else [])"

text \<open>
  What a call of \<open>dfs\<close> does to the state, given the flag it returns: nodes are only
  added to \<open>visited\<close>, none of them a node that was in progress at the call, and
  \<open>sorted\<close> keeps holding the visited nodes; a call that returns \<open>true\<close> has appended
  the path of its final state to \<open>cycles\<close>, one that returns \<open>false\<close> has restored
  the path and the nodes in progress.
\<close>

definition dfs_effect :: "dfs_state \<Rightarrow> bool \<Rightarrow> dfs_state \<Rightarrow> bool" where
  "dfs_effect st r st' \<longleftrightarrow>
     visited st \<subseteq> visited st' \<and> visiting st \<subseteq> visiting st' \<and>
     (visited st' - visited st) \<inter> visiting st = {} \<and>
     (set (sorted_list st) = visited st \<longrightarrow> set (sorted_list st') = visited st') \<and>
     (visited st \<inter> visiting st = {} \<longrightarrow> visited st' \<inter> visiting st' = {}) \<and>
     (if r then cycles_list st' = cycles_list st @ [path st'] \<and> (\<exists>p. path st' = path st @ p)
      else cycles_list st' = cycles_list st \<and> path st' = path st \<and> visiting st' = visiting st)"

section \<open>Concept hierarchy (schemas/codesystems/hierarchy.ts)\<close>

datatype property_value =
    PString string
  | PBoolean bool
  | PNumber real
  | PCoding string string

record ConceptPropertyValue =
  ptype :: string
  pvalue :: property_value

datatype ConceptHierarchyConcept =
  Concept (code: string) (properties: "string \<rightharpoonup> ConceptPropertyValue")
          (descendants: "ConceptHierarchyConcept list")

record ConceptHierarchy =
  hierarchy_url :: string
  concepts :: "ConceptHierarchyConcept list"

text \<open>\<open>findConcept\<close>: the closure \<open>findCodeIn\<close> with its loop over the children, and
  \<open>findCodeAmong\<close>. A concept object is always truthy, so \<open>if (result)\<close> tests for
  \<open>undefined\<close>.\<close>

fun findCodeIn :: "string \<Rightarrow> ConceptHierarchyConcept \<Rightarrow> ConceptHierarchyConcept option"
  and findCodeIn_children :: "string \<Rightarrow> ConceptHierarchyConcept list \<Rightarrow> ConceptHierarchyConcept option"
where
  "findCodeIn c (Concept k ps ds) =
     (if k = c then Some (Concept k ps ds) else findCodeIn_children c ds)"
| "findCodeIn_children c [] = None"
| "findCodeIn_children c (child # rest) =
     (if code child = c then Some child
      else (case findCodeIn c child of
              Some result \<Rightarrow> Some result
            | None \<Rightarrow> findCodeIn_children c rest))"

fun findCodeAmong :: "string \<Rightarrow> ConceptHierarchyConcept list \<Rightarrow> ConceptHierarchyConcept option" where
  "findCodeAmong c [] = None"
| "findCodeAmong c (concept # rest) =
     (case findCodeIn c concept of
        Some result \<Rightarrow> Some result
      | None \<Rightarrow> findCodeAmong c rest)"

definition findConcept :: "ConceptHierarchy \<Rightarrow> string \<Rightarrow> ConceptHierarchyConcept option" where
  "findConcept hierarchy c = findCodeAmong c (concepts hierarchy)"

fun collectCodesUnder :: "ConceptHierarchyConcept \<Rightarrow> string list" where
  "collectCodesUnder (Concept k ps ds) = k # concat (map collectCodesUnder ds)"

definition hierarchicalDescendantsOf :: "ConceptHierarchy \<Rightarrow> string \<Rightarrow> string list" where
  "hierarchicalDescendantsOf hierarchy c =
     (case findConcept hierarchy c of
        None \<Rightarrow> []
      | Some concept \<Rightarrow> concat (map collectCodesUnder (descendants concept)))"

text \<open>\<open>collectPathBetween\<close> with its loop over \<open>root.descendants\<close>; the loop carries
  \<open>root.code\<close>.\<close>

fun collectPathBetween :: "ConceptHierarchyConcept \<Rightarrow> string \<Rightarrow> string list"
  and collectPathBetween_children :: "string \<Rightarrow> ConceptHierarchyConcept list \<Rightarrow> string \<Rightarrow> string list"
where
  "collectPathBetween (Concept k ps ds) c = collectPathBetween_children k ds c"
| "collectPathBetween_children rootCode [] c = []"
| "collectPathBetween_children rootCode (child # rest) c =
     (if code child = c then [rootCode]
      else (let p = collectPathBetween child c
            in if length p > 0 then rootCode # p
               else collectPathBetween_children rootCode rest c))"

text \<open>The loop over \<open>hierarchy.concepts\<close> in \<open>hierarchicalAncestorsOf\<close>.\<close>

fun ancestors_among :: "ConceptHierarchyConcept list \<Rightarrow> string \<Rightarrow> string list" where
  "ancestors_among [] c = []"
| "ancestors_among (rootConcept # rest) c =
     (if code rootConcept = c then []
      else (let p = collectPathBetween rootConcept c
            in if length p > 0 then p else ancestors_among rest c))"

definition hierarchicalAncestorsOf :: "ConceptHierarchy \<Rightarrow> string \<Rightarrow> string list" where
  "hierarchicalAncestorsOf hierarchy c =
     (case findConcept hierarchy c of
        None \<Rightarrow> []
      | Some concept \<Rightarrow> ancestors_among (concepts hierarchy) c)"

text \<open>
  The notions the specification uses: the concepts of a tree and of a forest, the codes of
  a forest (it has no duplicate codes when this list is distinct), and the path from a
  root of the forest down to the parent of the concept with a given code.
\<close>

fun tree_nodes :: "ConceptHierarchyConcept \<Rightarrow> ConceptHierarchyConcept set" where
  "tree_nodes (Concept k ps ds) = insert (Concept k ps ds) (\<Union> (tree_nodes ` set ds))"

definition forest_nodes :: "ConceptHierarchyConcept list \<Rightarrow> ConceptHierarchyConcept set" where
  "forest_nodes cs = \<Union> (tree_nodes ` set cs)"

definition forest_codes :: "ConceptHierarchyConcept list \<Rightarrow> string list" where
  "forest_codes cs = concat (map collectCodesUnder cs)"

inductive path_to :: "ConceptHierarchyConcept list \<Rightarrow> string \<Rightarrow> string list \<Rightarrow> bool" where
  here: "r \<in> set cs \<Longrightarrow> code r = c \<Longrightarrow> path_to cs c []"
| below: "r \<in> set cs \<Longrightarrow> path_to (descendants r) c p \<Longrightarrow> path_to cs c (code r # p)"

text \<open>
  The hierarchy of the test fixture \<open>resources-codesystem.json\<close>, as the CodeSystem
  compiler builds it: \<open>machine\<close> with \<open>computer\<close> (\<open>laptop\<close>, \<open>desktop\<close>) and
  \<open>robot\<close>; \<open>human\<close> with \<open>adult\<close> (\<open>man\<close>, \<open>woman\<close>) and \<open>child\<close>
  (\<open>boy\<close>, \<open>girl\<close>); every concept has the property \<open>gender\<close>.
\<close>

definition gendered :: "string \<Rightarrow> string \<Rightarrow> ConceptHierarchyConcept list \<Rightarrow> ConceptHierarchyConcept" where
  "gendered k g ds = Concept k [''gender'' \<mapsto> \<lparr>ptype = ''string'', pvalue = PString g\<rparr>] ds"

definition boy_concept :: ConceptHierarchyConcept where
  "boy_concept = gendered ''boy'' ''male'' []"

definition girl_concept :: ConceptHierarchyConcept where
  "girl_concept = gendered ''girl'' ''female'' []"

definition child_concept :: ConceptHierarchyConcept where
  "child_concept = gendered ''child'' ''unknown'' [boy_concept, girl_concept]"

definition adult_concept :: ConceptHierarchyConcept where
  "adult_concept = gendered ''adult'' ''unknown''
     [gendered ''man'' ''male'' [], gendered ''woman'' ''female'' []]"

definition human_concept :: ConceptHierarchyConcept where
  "human_concept = gendered ''human'' ''unknown'' [adult_concept, child_concept]"

definition machine_concept :: ConceptHierarchyConcept where
  "machine_concept = gendered ''machine'' ''other''
     [gendered ''computer'' ''other''
        [gendered ''laptop'' ''other'' [], gendered ''desktop'' ''other'' []],
      gendered ''robot'' ''unknown'' []]"

definition resources_hierarchy :: ConceptHierarchy where
  "resources_hierarchy =
     \<lparr>hierarchy_url = ''http://example.org/fhir/CodeSystem/resources-codesystem'',
      concepts = [machine_concept, human_concept]\<rparr>"

section \<open>JSON values and zod schemas\<close>

text \<open>
  JavaScript values as they come out of \<open>JSON.parse\<close>, with \<open>undefined\<close> for what is
  absent. An object is its list of own properties.
\<close>

datatype json =
    JUndefined
  | JNull
  | JBool bool
  | JNumber real
  | JString string
  | JArray "json list"
  | JObject "(string \<times> json) list"

text \<open>
  A zod schema is used through \<open>safeParse\<close> only: it maps a value to the messages of
  the issues it raises, and the parse succeeds when there is none. The combinators below
  are the calls that the compiler makes. The messages of zod's own issues are not
  modelled (a fixed text stands for them); those of the repository's refinements are, with
  the \<open>JSON.stringify\<close> of the offending value left out. A refinement added with
  \<open>superRefine\<close> runs when the inner schema has not aborted; for the schemas built here
  that is when it raised no issue.
\<close>

type_synonym schema = "json \<Rightarrow> string list"

type_synonym refinement = "json \<Rightarrow> string list"

definition success :: "schema \<Rightarrow> json \<Rightarrow> bool" where
  "success s v \<longleftrightarrow> s v = []"

definition z_never :: schema where
  "z_never v = [''Expected never'']"

definition z_any :: schema where
  "z_any v = []"

definition z_string :: schema where
  "z_string v = (case v of JString s \<Rightarrow> [] | _ \<Rightarrow> [''Expected string''])"

definition z_string_min :: "nat \<Rightarrow> schema" where
  "z_string_min n v =
     (case v of
        JString s \<Rightarrow> (if n \<le> length s then [] else [''String too short''])
      | _ \<Rightarrow> [''Expected string''])"

definition z_literal :: "string \<Rightarrow> schema" where
  "z_literal x v = (if v = JString x then [] else [''Invalid literal value''])"

definition z_enum :: "string list \<Rightarrow> schema" where
  "z_enum xs v =
     (case v of
        JString s \<Rightarrow> (if s \<in> set xs then [] else [''Invalid enum value''])
      | _ \<Rightarrow> [''Invalid enum value''])"

definition z_and :: "schema \<Rightarrow> schema \<Rightarrow> schema" where
  "z_and a b v = a v @ b v"

definition z_or :: "schema \<Rightarrow> schema \<Rightarrow> schema" where
  "z_or a b v = (if a v = [] \<or> b v = [] then [] else [''Invalid input''])"

definition z_optional :: "schema \<Rightarrow> schema" where
  "z_optional s v = (if v = JUndefined then [] else s v)"

definition z_superRefine :: "schema \<Rightarrow> refinement \<Rightarrow> schema" where
  "z_superRefine s r v = (if s v = [] then r v else s v)"

text \<open>\<open>z.string().regex(re)\<close>, given the test function of the compiled expression.\<close>

definition z_string_regex :: "(string \<Rightarrow> bool) \<Rightarrow> string \<Rightarrow> schema" where
  "z_string_regex test message v =
     (case v of
        JString s \<Rightarrow> (if test s then [] else [message])
      | _ \<Rightarrow> [''Expected string''])"

section \<open>ValueSet compiler (schemas/parsing/valueset/schema-generator.ts)\<close>

record SystemIncludeFilter =
  fproperty :: string
  fop :: string
  fvalue :: string

text \<open>A \<open>ValueSetComposeInclude\<close>; \<open>concept\<close> is reduced to the codes, the only part read.\<close>

record ValueSetComposeInclude =
  system :: "string option"
  concept :: "string list option"
  filter_list :: "SystemIncludeFilter list option"
  valueSet :: "string list option"

record ValueSetCompose =
  include_list :: "ValueSetComposeInclude list option"
  exclude_list :: "ValueSetComposeInclude list option"

record ValueSet =
  vs_url :: string
  compose :: "ValueSetCompose option"

definition isSystemInclude :: "ValueSetComposeInclude \<Rightarrow> bool" where
  "isSystemInclude inc \<longleftrightarrow> system inc \<noteq> None"

definition isValueSetInclude :: "ValueSetComposeInclude \<Rightarrow> bool" where
  "isValueSetInclude inc \<longleftrightarrow> (case valueSet inc of None \<Rightarrow> False | Some urls \<Rightarrow> length urls > 0)"

definition createIncludeSchemasForValueSet ::
  "ValueSetComposeInclude \<Rightarrow> (string \<Rightarrow> schema option) \<Rightarrow> schema \<Rightarrow> schema list" where
  "createIncludeSchemasForValueSet inc resolveSchema defaultSchema =
     map (\<lambda>s. case s of None \<Rightarrow> defaultSchema | Some s' \<Rightarrow> s')
         (map resolveSchema (case valueSet inc of None \<Rightarrow> [] | Some urls \<Rightarrow> urls))"

text \<open>\<open>String.prototype.split(",")\<close> and \<open>trim\<close> (ASCII white space).\<close>

fun split_on :: "char \<Rightarrow> string \<Rightarrow> string list" where
  "split_on c [] = [[]]"
| "split_on c (x # xs) =
     (if x = c then [] # split_on c xs
      else (case split_on c xs of
              w # ws \<Rightarrow> (x # w) # ws
            | [] \<Rightarrow> [[x]]))"

definition is_space :: "char \<Rightarrow> bool" where
  "is_space c \<longleftrightarrow> c \<in> {CHR '' '', CHR 0x09, CHR 0x0A, CHR 0x0B, CHR 0x0C, CHR 0x0D}"

definition trim :: "string \<Rightarrow> string" where
  "trim s = rev (dropWhile is_space (rev (dropWhile is_space s)))"

definition filter_description :: "SystemIncludeFilter \<Rightarrow> string" where
  "filter_description f = fproperty f @ '' '' @ fop f @ '' '' @ fvalue f"

definition filter_message :: "SystemIncludeFilter \<Rightarrow> string" where
  "filter_message f = ''Value does not pass the filter: '' @ filter_description f"

text \<open>The refinement that fails unless (or, for the negative operators, if) the string
  value is one of the listed values.\<close>

definition must_be_among :: "string list \<Rightarrow> string \<Rightarrow> refinement" where
  "must_be_among allowed msg v =
     (case v of
        JString s \<Rightarrow> (if s \<notin> set allowed then [msg] else [])
      | _ \<Rightarrow> [msg])"

definition must_not_be_among :: "string list \<Rightarrow> string \<Rightarrow> refinement" where
  "must_not_be_among disallowed msg v =
     (case v of
        JString s \<Rightarrow> (if s \<in> set disallowed then [msg] else [])
      | _ \<Rightarrow> [])"

text \<open>
  \<open>createFilterSchema\<close>. \<open>resolveResource\<close> yields the hierarchy when the resolved
  resource passes \<open>isConceptHierarchy\<close>, and \<open>None\<close> otherwise. \<open>compileRegExp\<close> is
  \<open>new RegExp\<close>: the test function of the expression, or \<open>None\<close> when the constructor
  throws. The value schema is built first, whatever the property.
\<close>

definition filter_value_schema ::
  "(string \<Rightarrow> (string \<Rightarrow> bool) option) \<Rightarrow> string \<Rightarrow> SystemIncludeFilter
     \<Rightarrow> (string \<Rightarrow> ConceptHierarchy option) \<Rightarrow> error + schema" where
  "filter_value_schema compileRegExp codeSystemUrl f resolveResource =
     (if fop f = ''='' then Inr (z_literal (fvalue f))
      else if fop f = ''generalizes'' then
        (case resolveResource codeSystemUrl of
           Some hierarchy \<Rightarrow>
             Inr (z_superRefine z_string
                    (must_be_among (fvalue f # hierarchicalAncestorsOf hierarchy (fvalue f)) (filter_message f)))
         | None \<Rightarrow> Inr (z_superRefine z_string (must_be_among [fvalue f] (filter_message f))))
      else if fop f = ''is-a'' then
        (case resolveResource codeSystemUrl of
           Some hierarchy \<Rightarrow>
             Inr (z_superRefine z_string
                    (must_be_among (fvalue f # hierarchicalDescendantsOf hierarchy (fvalue f)) (filter_message f)))
         | None \<Rightarrow> Inr (z_superRefine z_string (must_be_among [fvalue f] (filter_message f))))
      else if fop f = ''is-not-a'' then
        (case resolveResource codeSystemUrl of
           Some hierarchy \<Rightarrow>
             Inr (z_superRefine z_string
                    (must_not_be_among (fvalue f # hierarchicalDescendantsOf hierarchy (fvalue f)) (filter_message f)))
         | None \<Rightarrow> Inr (z_superRefine z_string (must_not_be_among [fvalue f] (filter_message f))))
      else if fop f = ''descendent-of'' then
        (case resolveResource codeSystemUrl of
           Some hierarchy \<Rightarrow>
             Inr (z_superRefine z_string
                    (must_be_among (hierarchicalDescendantsOf hierarchy (fvalue f)) (filter_message f)))
         | None \<Rightarrow> Inr (z_superRefine z_string (must_not_be_among [fvalue f] (filter_message f))))
      else if fop f = ''regex'' then
        (case compileRegExp (fvalue f) of
           None \<Rightarrow> Inl (SyntaxError (fvalue f))
         | Some test \<Rightarrow> Inr (z_string_regex test (filter_description f)))
      else if fop f = ''in'' then
        Inr (z_superRefine z_string
               (must_be_among (map trim (split_on CHR '','' (fvalue f))) (filter_message f)))
      else if fop f = ''not-in'' then
        Inr (z_superRefine z_string
               (must_not_be_among (map trim (split_on CHR '','' (fvalue f))) (filter_message f)))
      else Inl (Error (''Unsupported filter operator: '' @ filter_description f)))"

text \<open>The refinement of a filter on a property other than \<open>code\<close>.\<close>

definition property_refinement :: "ConceptHierarchy \<Rightarrow> SystemIncludeFilter \<Rightarrow> refinement" where
  "property_refinement hierarchy f v =
     (case v of
        JString s \<Rightarrow>
          (case findConcept hierarchy s of
             None \<Rightarrow> [''Value not found from hierarchy (filter: '' @ filter_description f @ '')'']
           | Some c \<Rightarrow>
               (case properties c (fproperty f) of
                  None \<Rightarrow> [''Value does not have property '' @ fproperty f]
                | Some prop \<Rightarrow>
                    (if pvalue prop \<noteq> PString (fvalue f)
                     then [''Value does not have property '' @ fproperty f @ '' with value '' @ fvalue f]
                     else [])))
      | _ \<Rightarrow> [''Value not found from hierarchy (filter: '' @ filter_description f @ '')''])"

definition createFilterSchema ::
  "(string \<Rightarrow> (string \<Rightarrow> bool) option) \<Rightarrow> string \<Rightarrow> SystemIncludeFilter
     \<Rightarrow> (string \<Rightarrow> ConceptHierarchy option) \<Rightarrow> error + schema" where
  "createFilterSchema compileRegExp codeSystemUrl f resolveResource =
     (case filter_value_schema compileRegExp codeSystemUrl f resolveResource of
        Inl e \<Rightarrow> Inl e
      | Inr valueSchema \<Rightarrow>
          (if fproperty f = ''code'' then Inr valueSchema
           else (case resolveResource codeSystemUrl of
                   Some hierarchy \<Rightarrow> Inr (z_superRefine z_string (property_refinement hierarchy f))
                 | None \<Rightarrow> Inr z_any)))"

text \<open>\<open>andSchemas\<close> and \<open>orSchemas\<close>: \<open>reduce\<close> over the tail, starting from the head.\<close>

definition andSchemas :: "schema list \<Rightarrow> schema" where
  "andSchemas schemas =
     (case schemas of
        [] \<Rightarrow> z_never
      | [s] \<Rightarrow> s
      | s # rest \<Rightarrow> foldl (\<lambda>acc sch. z_and acc sch) s rest)"

definition orSchemas :: "schema list \<Rightarrow> schema" where
  "orSchemas schemas =
     (case schemas of
        [] \<Rightarrow> z_never
      | [s] \<Rightarrow> s
      | s # rest \<Rightarrow> foldl (\<lambda>acc sch. z_or acc sch) s rest)"

text \<open>A \<open>map\<close> whose callback may throw stops at the first exception.\<close>

fun map_throwing :: "('a \<Rightarrow> error + 'b) \<Rightarrow> 'a list \<Rightarrow> error + 'b list" where
  "map_throwing g [] = Inr []"
| "map_throwing g (x # xs) =
     (case g x of
        Inl e \<Rightarrow> Inl e
      | Inr y \<Rightarrow> (case map_throwing g xs of Inl e \<Rightarrow> Inl e | Inr ys \<Rightarrow> Inr (y # ys)))"

definition supportedOps :: "string list" where
  "supportedOps = [''='', ''regex'', ''in'', ''not-in'', ''is-a'', ''is-not-a'', ''descendent-of'', ''generalizes'']"

text \<open>\<open>createIncludeSchemasForSystem\<close>; \<open>sys\<close> is \<open>include.system\<close>, which a
  \<open>SystemInclude\<close> has.\<close>

definition createIncludeSchemasForSystem ::
  "(string \<Rightarrow> (string \<Rightarrow> bool) option) \<Rightarrow> string \<Rightarrow> ValueSetComposeInclude \<Rightarrow> (string \<Rightarrow> schema option)
     \<Rightarrow> (string \<Rightarrow> ConceptHierarchy option) \<Rightarrow> schema \<Rightarrow> error + schema list" where
  "createIncludeSchemasForSystem compileRegExp sys inc resolveSchema resolveResource defaultSchema =
     (let systemSchema = resolveSchema sys;
          concepts = (case concept inc of None \<Rightarrow> [] | Some cs \<Rightarrow> cs)
      in if length concepts = 1 then Inr [z_literal (concepts ! 0)]
         else if length concepts \<ge> 2 then Inr [z_enum concepts]
         else
           (let implemented = filter (\<lambda>f. fop f \<in> set supportedOps)
                                (case filter_list inc of None \<Rightarrow> [] | Some fs \<Rightarrow> fs)
            in if length implemented > 0 then
                 (case map_throwing (\<lambda>f. createFilterSchema compileRegExp sys f resolveResource)
                         implemented of
                    Inl e \<Rightarrow> Inl e
                  | Inr filterSchemas \<Rightarrow>
                      Inr [z_and (case systemSchema of Some s \<Rightarrow> s | None \<Rightarrow> z_string)
                                 (andSchemas filterSchemas)])
               else Inr [case systemSchema of Some s \<Rightarrow> s | None \<Rightarrow> defaultSchema]))"

text \<open>\<open>collectSchemas\<close>: the \<open>forEach\<close> over the includes, which throws at an element that
  is neither kind of include (\<open>isSystemInclude\<close> is the test for \<open>Some\<close>).\<close>

fun collectSchemas ::
  "(string \<Rightarrow> (string \<Rightarrow> bool) option) \<Rightarrow> ValueSetComposeInclude list \<Rightarrow> (string \<Rightarrow> schema option)
     \<Rightarrow> (string \<Rightarrow> ConceptHierarchy option) \<Rightarrow> schema \<Rightarrow> error + schema list" where
  "collectSchemas compileRegExp [] resolveSchema resolveResource defaultSchema = Inr []"
| "collectSchemas compileRegExp (inc # rest) resolveSchema resolveResource defaultSchema =
     (case (if isValueSetInclude inc then
              Inr (createIncludeSchemasForValueSet inc resolveSchema defaultSchema)
            else (case system inc of
                    Some sys \<Rightarrow>
                      createIncludeSchemasForSystem compileRegExp sys inc resolveSchema resolveResource
                        defaultSchema
                  | None \<Rightarrow> Inl (Error ''Invalid include element''))) of
        Inl e \<Rightarrow> Inl e
      | Inr schemas \<Rightarrow>
          (case collectSchemas compileRegExp rest resolveSchema resolveResource defaultSchema of
             Inl e \<Rightarrow> Inl e
           | Inr others \<Rightarrow> Inr (schemas @ others)))"

text \<open>The generators return the schema and the warnings written to the console.\<close>

definition generateSchemaForIncludes ::
  "(string \<Rightarrow> (string \<Rightarrow> bool) option) \<Rightarrow> ValueSet \<Rightarrow> (string \<Rightarrow> schema option)
     \<Rightarrow> (string \<Rightarrow> ConceptHierarchy option) \<Rightarrow> error + (schema \<times> string list)" where
  "generateSchemaForIncludes compileRegExp vs resolveSchema resolveResource =
     (let includes = (case compose vs of
                        None \<Rightarrow> []
                      | Some c \<Rightarrow> (case include_list c of None \<Rightarrow> [] | Some incs \<Rightarrow> incs))
      in case collectSchemas compileRegExp includes resolveSchema resolveResource (z_string_min 1) of
           Inl e \<Rightarrow> Inl e
         | Inr schemas \<Rightarrow>
             Inr (orSchemas schemas,
                  if length schemas = 0
                  then [''Could not contribute any schemas for ValueSet '' @ vs_url vs]
                  else []))"

definition generateSchemaForExcludes ::
  "(string \<Rightarrow> (string \<Rightarrow> bool) option) \<Rightarrow> ValueSet \<Rightarrow> (string \<Rightarrow> schema option)
     \<Rightarrow> (string \<Rightarrow> ConceptHierarchy option) \<Rightarrow> error + schema" where
  "generateSchemaForExcludes compileRegExp vs resolveSchema resolveResource =
     (let excludes = (case compose vs of
                        None \<Rightarrow> []
                      | Some c \<Rightarrow> (case exclude_list c of None \<Rightarrow> [] | Some excs \<Rightarrow> excs))
      in case collectSchemas compileRegExp excludes resolveSchema resolveResource z_never of
           Inl e \<Rightarrow> Inl e
         | Inr schemas \<Rightarrow> Inr (andSchemas schemas))"

text \<open>The refinement that \<open>processResource\<close> puts on the combined include schema.\<close>

definition excluded_refinement :: "schema \<Rightarrow> ValueSet \<Rightarrow> refinement" where
  "excluded_refinement combinedExcludeSchema vs v =
     (if success combinedExcludeSchema v
      then [''Value is excluded from the ValueSet '' @ vs_url vs]
      else [])"

text \<open>
  \<open>processResource\<close> of the ValueSet compiler: the schema it hands to \<open>contribute\<close> and
  the warnings, or the exception it throws.
\<close>

definition processValueSet ::
  "(string \<Rightarrow> (string \<Rightarrow> bool) option) \<Rightarrow> ResourceFile \<Rightarrow> ValueSet \<Rightarrow> (string \<Rightarrow> schema option)
     \<Rightarrow> (string \<Rightarrow> ConceptHierarchy option) \<Rightarrow> error + (schema \<times> string list)" where
  "processValueSet compileRegExp file vs resolveSchema resolveResource =
     (if resourceType file \<noteq> ''ValueSet''
      then Inl (Error (''processResource: Expected a ValueSet, got a '' @ resourceType file))
      else
        (case generateSchemaForIncludes compileRegExp vs resolveSchema resolveResource of
           Inl e \<Rightarrow> Inl e
         | Inr (combinedIncludeSchema, warnings) \<Rightarrow>
             (case generateSchemaForExcludes compileRegExp vs resolveSchema resolveResource of
                Inl e \<Rightarrow> Inl e
              | Inr combinedExcludeSchema \<Rightarrow>
                  Inr (z_superRefine combinedIncludeSchema
                         (excluded_refinement combinedExcludeSchema vs),
                       warnings))))"

text \<open>The lists that the two generators read from a ValueSet.\<close>

definition includes_of :: "ValueSet \<Rightarrow> ValueSetComposeInclude list" where
  "includes_of vs = (case compose vs of None \<Rightarrow> []
                     | Some c \<Rightarrow> (case include_list c of None \<Rightarrow> [] | Some incs \<Rightarrow> incs))"

definition excludes_of :: "ValueSet \<Rightarrow> ValueSetComposeInclude list" where
  "excludes_of vs = (case compose vs of None \<Rightarrow> []
                     | Some c \<Rightarrow> (case exclude_list c of None \<Rightarrow> [] | Some excs \<Rightarrow> excs))"

text \<open>Example inputs for the ValueSet compiler, after the test suite: the Greek alphabet
  (abridged) with its short and long letters, and a hierarchy in which a concept has a
  property whose value is a code.\<close>

definition greek_schemas :: "string \<Rightarrow> schema option" where
  "greek_schemas u =
     (if u = ''GreekAlphabet'' then
        Some (z_enum [''alpha'', ''beta'', ''pi'', ''rho'', ''lambda'', ''epsilon'', ''omicron''])
      else if u = ''ShortGreekAlphabet'' then Some (z_enum [''pi'', ''rho''])
      else if u = ''LongGreekAlphabet'' then Some (z_enum [''epsilon'', ''omicron''])
      else None)"

definition system_include :: "string \<Rightarrow> ValueSetComposeInclude" where
  "system_include u = \<lparr>system = Some u, concept = None, filter_list = None, valueSet = None\<rparr>"

definition mid_length_greek :: ValueSet where
  "mid_length_greek =
     \<lparr>vs_url = ''http://example.org/fhir/ValueSet/mid-length-greek-alphabet'',
      compose = Some \<lparr>include_list = Some [system_include ''GreekAlphabet''],
                      exclude_list = Some [system_include ''ShortGreekAlphabet'',
                                           system_include ''LongGreekAlphabet'']\<rparr>\<rparr>"

definition no_regexp :: "string \<Rightarrow> (string \<Rightarrow> bool) option" where
  "no_regexp pattern = None"

definition no_hierarchy :: "string \<Rightarrow> ConceptHierarchy option" where
  "no_hierarchy u = None"

definition toys_hierarchy :: ConceptHierarchy where
  "toys_hierarchy =
     \<lparr>hierarchy_url = ''toys'',
      concepts = [child_concept,
                  Concept ''toy'' [''owner'' \<mapsto> \<lparr>ptype = ''string'', pvalue = PString ''boy''\<rparr>] []]\<rparr>"

definition toys_resources :: "string \<Rightarrow> ConceptHierarchy option" where
  "toys_resources u = (if u = ''toys'' then Some toys_hierarchy else None)"

definition owner_is_a_child :: SystemIncludeFilter where
  "owner_is_a_child = \<lparr>fproperty = ''owner'', fop = ''is-a'', fvalue = ''child''\<rparr>"

section \<open>Removing overlapping definitions (schemas/schema-generator.ts)\<close>

text \<open>What \<open>removeOverlappingDefinitions\<close> reads of a parsed resource.\<close>

record ResourceObject =
  status :: "string option"
  experimental :: "bool option"
  date :: "string option"

record EnrichedResourceFile =
  enriched_file :: ResourceFile
  enriched_data :: ResourceObject

definition filterNonRetiredOnly :: "EnrichedResourceFile \<Rightarrow> bool" where
  "filterNonRetiredOnly f \<longleftrightarrow> status (enriched_data f) \<noteq> Some ''retired''"

definition filterActiveOnly :: "EnrichedResourceFile \<Rightarrow> bool" where
  "filterActiveOnly f \<longleftrightarrow> status (enriched_data f) = Some ''active''"

definition filterNonExperimentalOnly :: "EnrichedResourceFile \<Rightarrow> bool" where
  "filterNonExperimentalOnly f \<longleftrightarrow> experimental (enriched_data f) = Some False"

text \<open>A date is truthy when it is present and not the empty string.\<close>

definition sortEnrichedFilesMostRecentFirst ::
  "(string \<Rightarrow> string \<Rightarrow> int) \<Rightarrow> EnrichedResourceFile \<Rightarrow> EnrichedResourceFile \<Rightarrow> int" where
  "sortEnrichedFilesMostRecentFirst localeCompare a b =
     (case (date (enriched_data a), date (enriched_data b)) of
        (Some da, Some db) \<Rightarrow> (if da \<noteq> [] \<and> db \<noteq> [] then localeCompare db da else 0)
      | _ \<Rightarrow> 0)"

text \<open>
  \<open>filterEnrichedFiles\<close>, with the rest parameter split into \<open>filterFunctions[0]\<close> and
  \<open>filterFunctions.slice(1)\<close>; it is only ever called with at least one filter. The
  subset is always taken from the variable \<open>enrichedFiles\<close> of the enclosing callback,
  not from the parameter \<open>files\<close>.
\<close>

fun filterEnrichedFiles ::
  "EnrichedResourceFile list \<Rightarrow> EnrichedResourceFile list \<Rightarrow> (EnrichedResourceFile \<Rightarrow> bool)
     \<Rightarrow> (EnrichedResourceFile \<Rightarrow> bool) list \<Rightarrow> EnrichedResourceFile list" where
  "filterEnrichedFiles enrichedFiles files filterFunction [] =
     (if length files > 1 then
        (let subset = filter filterFunction enrichedFiles
         in if length subset = length enrichedFiles then files
            else if length subset = 1 then take 1 subset
            else files)
      else files)"
| "filterEnrichedFiles enrichedFiles files filterFunction (g # gs) =
     (if length files > 1 then
        (let subset = filter filterFunction enrichedFiles
         in if length subset = length enrichedFiles then filterEnrichedFiles enrichedFiles subset g gs
            else if length subset = 1 then take 1 subset
            else if length subset > 1 then filterEnrichedFiles enrichedFiles subset g gs
            else files)
      else files)"

text \<open>
  The callback of \<open>uniqueUrls.flatMap\<close>: the files kept for one URL.
  \<open>parseJsonFromFilePath\<close> is the parameter \<open>parseJson\<close>. The list whose first element
  is taken is never empty for a URL of the input.
\<close>

definition selectForUrl ::
  "(string \<Rightarrow> string \<Rightarrow> int) \<Rightarrow> (string \<Rightarrow> ResourceObject) \<Rightarrow> ResourceFile list \<Rightarrow> string
     \<Rightarrow> ResourceFile list" where
  "selectForUrl localeCompare parseJson resourceFiles u =
     (let overlappingFiles = filter (\<lambda>f. url f = u) resourceFiles
      in if length overlappingFiles = 1 then overlappingFiles
         else
           (let enrichedFiles = map (\<lambda>f. \<lparr>enriched_file = f, enriched_data = parseJson (filePath f)\<rparr>) overlappingFiles;
                filtered = filterEnrichedFiles enrichedFiles enrichedFiles filterActiveOnly
                             [filterNonRetiredOnly, filterNonExperimentalOnly]
            in if length filtered = 1 then [enriched_file (filtered ! 0)]
               else [enriched_file (array_sort (sortEnrichedFilesMostRecentFirst localeCompare) filtered ! 0)]))"

definition removeOverlappingDefinitions ::
  "(string \<Rightarrow> string \<Rightarrow> int) \<Rightarrow> (string \<Rightarrow> ResourceObject) \<Rightarrow> ResourceFile list \<Rightarrow> ResourceFile list" where
  "removeOverlappingDefinitions localeCompare parseJson resourceFiles =
     concat (map (selectForUrl localeCompare parseJson resourceFiles)
                 (unique (map url resourceFiles)))"

text \<open>Two registrations of one URL in different packages, with the same metadata.\<close>

definition registration :: "string \<Rightarrow> ResourceFile" where
  "registration dir =
     \<lparr>filePath = dir @ ''/StructureDefinition-x.json'', resourceType = ''StructureDefinition'',
      url = ''http://example.org/x'', name = ''x'', kind = Some ''resource''\<rparr>"

definition same_metadata :: "string \<Rightarrow> ResourceObject" where
  "same_metadata p = \<lparr>status = Some ''active'', experimental = Some False, date = Some ''2024-01-01''\<rparr>"

section \<open>The validator facade (FhirValidator.validate)\<close>

text \<open>
  The result of \<open>validate\<close>; the fields \<open>success\<close>, \<open>errors\<close> and \<open>data\<close> of the source,
  the optional ones absent when \<open>None\<close>.
\<close>

record ValidationResult =
  result_success :: bool
  result_errors :: "string list option"
  result_data :: "json option"

record ValidateOptions =
  profiles :: "string list option"
  ignoreSelfDeclaredProfiles :: "bool option"
  ignoreUnknownSchemas :: "bool option"

text \<open>The decimal digits of a count, as a template literal prints it.\<close>

fun string_of_nat :: "nat \<Rightarrow> string" where
  "string_of_nat n =
     (if n < 10 then [char_of (48 + n)]
      else string_of_nat (n div 10) @ [char_of (48 + n mod 10)])"

declare string_of_nat.simps [simp del]

definition pluralize :: "nat \<Rightarrow> string option \<Rightarrow> string option \<Rightarrow> string" where
  "pluralize count singular pluralized =
     (if count = 1 then
        string_of_nat count @ '' '' @ (case singular of Some s \<Rightarrow> s | None \<Rightarrow> ''item'')
      else
        string_of_nat count @ '' '' @
          (case pluralized of
             Some p \<Rightarrow> p
           | None \<Rightarrow> (case singular of Some s \<Rightarrow> s | None \<Rightarrow> ''item'') @ ''s''))"

text \<open>
  Truthiness of a value, and the read of a property \<open>v.k\<close>: a \<open>TypeError\<close> on \<open>null\<close> and
  \<open>undefined\<close>, the own property of an object, and \<open>undefined\<close> otherwise (the keys read
  by \<open>validate\<close> are \<open>meta\<close>, \<open>profile\<close> and \<open>url\<close>, which no string, number, boolean or
  array has).
\<close>

fun truthy :: "json \<Rightarrow> bool" where
  "truthy JUndefined = False"
| "truthy JNull = False"
| "truthy (JBool b) = b"
| "truthy (JNumber n) = (n \<noteq> 0)"
| "truthy (JString s) = (s \<noteq> [])"
| "truthy (JArray xs) = True"
| "truthy (JObject kvs) = True"

fun get_property :: "json \<Rightarrow> string \<Rightarrow> error + json" where
  "get_property JUndefined k =
     Inl (TypeError (''Cannot read properties of undefined (reading '' @ k @ '')''))"
| "get_property JNull k =
     Inl (TypeError (''Cannot read properties of null (reading '' @ k @ '')''))"
| "get_property (JObject kvs) k =
     Inr (case map_of kvs k of Some v \<Rightarrow> v | None \<Rightarrow> JUndefined)"
| "get_property (JBool b) k = Inr JUndefined"
| "get_property (JNumber n) k = Inr JUndefined"
| "get_property (JString s) k = Inr JUndefined"
| "get_property (JArray xs) k = Inr JUndefined"

text \<open>The elements that the spread \<open>...v\<close> puts into an array literal.\<close>

fun spread :: "json \<Rightarrow> error + json list" where
  "spread (JArray xs) = Inr xs"
| "spread (JString s) = Inr (map (\<lambda>c. JString [c]) s)"
| "spread JUndefined = Inl (TypeError ''undefined is not iterable'')"
| "spread JNull = Inl (TypeError ''null is not iterable'')"
| "spread (JBool b) = Inl (TypeError ''boolean is not iterable'')"
| "spread (JNumber n) = Inl (TypeError ''number is not iterable'')"
| "spread (JObject kvs) = Inl (TypeError ''object is not iterable'')"

text \<open>
  The first part of \<open>validate\<close>: a string that is the path of a file is read and parsed, any
  other string is parsed and kept as it is when that fails. \<open>isFilePath\<close>,
  \<open>readJSONFromFilePath\<close> and \<open>JSON.parse\<close> are those of the host.
\<close>

definition loadResource ::
  "(string \<Rightarrow> bool) \<Rightarrow> (string \<Rightarrow> error + json) \<Rightarrow> (string \<Rightarrow> error + json) \<Rightarrow> json \<Rightarrow> error + json" where
  "loadResource isFilePath readJSONFromFilePath jsonParse resource =
     (case resource of
        JString s \<Rightarrow>
          (if isFilePath s then readJSONFromFilePath s
           else (case jsonParse s of Inr v \<Rightarrow> Inr v | Inl e \<Rightarrow> Inr (JString s)))
      | _ \<Rightarrow> Inr resource)"

text \<open>\<open>options?.profiles || []\<close> and \<open>options?.ignoreSelfDeclaredProfiles\<close>.\<close>

definition requestedProfiles :: "ValidateOptions option \<Rightarrow> json list" where
  "requestedProfiles options =
     (case options of
        None \<Rightarrow> []
      | Some opts \<Rightarrow> (case profiles opts of None \<Rightarrow> [] | Some ps \<Rightarrow> map JString ps))"

definition ignoresSelfDeclared :: "ValidateOptions option \<Rightarrow> bool" where
  "ignoresSelfDeclared options =
     (case options of None \<Rightarrow> False | Some opts \<Rightarrow> ignoreSelfDeclaredProfiles opts = Some True)"

definition ignoresUnknown :: "ValidateOptions option \<Rightarrow> bool" where
  "ignoresUnknown options =
     (case options of None \<Rightarrow> False | Some opts \<Rightarrow> ignoreUnknownSchemas opts = Some True)"

text \<open>\<open>(resource as any).meta?.profile\<close>.\<close>

definition declaredProfile :: "json \<Rightarrow> error + json" where
  "declaredProfile resource =
     (case get_property resource ''meta'' of
        Inl e \<Rightarrow> Inl e
      | Inr meta \<Rightarrow>
          (if meta = JUndefined \<or> meta = JNull then Inr JUndefined
           else get_property meta ''profile''))"

text \<open>
  The array \<open>profiles\<close> after the push of the resource's \<open>url\<close>. Its elements are values of
  the document, so they need not be strings.
\<close>

definition effectiveProfiles :: "json \<Rightarrow> ValidateOptions option \<Rightarrow> error + json list" where
  "effectiveProfiles resource options =
     (case (if ignoresSelfDeclared options then Inr []
            else (case declaredProfile resource of
                    Inl e \<Rightarrow> Inl e
                  | Inr p \<Rightarrow> spread (if truthy p then p else JArray []))) of
        Inl e \<Rightarrow> Inl e
      | Inr declared \<Rightarrow>
          (case get_property resource ''url'' of
             Inl e \<Rightarrow> Inl e
           | Inr resourceUrl \<Rightarrow>
               Inr (requestedProfiles options @ declared @
                    (if truthy resourceUrl then [resourceUrl] else []))))"

text \<open>
  The callback mapped over the profiles. \<open>toString\<close> is the host's conversion of a value
  that is not a string to a property key and into the message.
\<close>

definition profileKey :: "(json \<Rightarrow> string) \<Rightarrow> json \<Rightarrow> string" where
  "profileKey toString profile = (case profile of JString s \<Rightarrow> s | _ \<Rightarrow> toString profile)"

definition profileErrors ::
  "(json \<Rightarrow> string) \<Rightarrow> (string \<times> schema) list \<Rightarrow> json \<Rightarrow> ValidateOptions option \<Rightarrow> json \<Rightarrow> string list" where
  "profileErrors toString schemas resource options profile =
     (case map_of schemas (profileKey toString profile) of
        Some schema \<Rightarrow> schema resource
      | None \<Rightarrow>
          (if ignoresUnknown options then []
           else [''Could not find schema for '' @ profileKey toString profile @
                 '' (set `ignoreUnknownSchemas: true` to ignore unknown schemas)'']))"

definition validate ::
  "(string \<Rightarrow> bool) \<Rightarrow> (string \<Rightarrow> error + json) \<Rightarrow> (string \<Rightarrow> error + json) \<Rightarrow> (json \<Rightarrow> string) \<Rightarrow>
   (string \<times> schema) list \<Rightarrow> json \<Rightarrow> ValidateOptions option \<Rightarrow> error + ValidationResult" where
  "validate isFilePath readJSONFromFilePath jsonParse toString schemas resource options =
     (if length (map fst schemas) = 0 then
        Inr \<lparr>result_success = False,
             result_errors = Some [pluralize (length (map fst schemas)) (Some ''schema'') None @ '' loaded''],
             result_data = None\<rparr>
      else
        (case loadResource isFilePath readJSONFromFilePath jsonParse resource of
           Inl e \<Rightarrow> Inl e
         | Inr parsed \<Rightarrow>
             (case effectiveProfiles parsed options of
                Inl e \<Rightarrow> Inl e
              | Inr profile_list \<Rightarrow>
                  (let errors = concat (map (profileErrors toString schemas parsed options) profile_list) in
                   if length errors = 0 then
                     Inr \<lparr>result_success = True, result_errors = None, result_data = Some parsed\<rparr>
                   else
                     Inr \<lparr>result_success = False, result_errors = Some (unique errors),
                          result_data = None\<rparr>))))"

text \<open>Hosts for the examples: no file exists, and only the text \<open>null\<close> parses.\<close>

definition no_file :: "string \<Rightarrow> bool" where
  "no_file s = False"

definition unreadable :: "string \<Rightarrow> error + json" where
  "unreadable s = Inl (Error ''ENOENT'')"

definition parse_null :: "string \<Rightarrow> error + json" where
  "parse_null s = (if s = ''null'' then Inr JNull else Inl (SyntaxError ''Unexpected token''))"

definition plain_key :: "json \<Rightarrow> string" where
  "plain_key v = ''[object Object]''"

definition patient_schemas :: "(string \<times> schema) list" where
  "patient_schemas = [(''http://hl7.org/fhir/StructureDefinition/Patient'', z_never)]"

definition malformed_patient :: json where
  "malformed_patient =
     JObject [(''resourceType'', JString ''Patient''), (''active'', JString ''maybe'')]"

section \<open>StructureDefinition compiler: shapes and choice-of-type fields
  (schemas/parsing/structuredefinition/conversion.ts, schemas/types/common-refinements.ts)\<close>

text \<open>
  Here the value that a schema hands on matters: a refinement added with \<open>superRefine\<close>
  receives the value parsed by the inner schema, and \<open>z.object\<close> keeps the declared keys
  only (zod's default for unknown keys is to strip them). A parse therefore yields its
  issues, whether it was aborted (an invalid type, after which no refinement runs) and
  the parsed value; an exception thrown by a refinement leaves the parse as \<open>Inl\<close>.
\<close>

record parse_result =
  aborted :: bool
  issues :: "string list"
  parsed :: json

type_synonym parser = "json \<Rightarrow> error + parse_result"

type_synonym throwing_refinement = "json \<Rightarrow> error + string list"

definition parse_ok :: "json \<Rightarrow> error + parse_result" where
  "parse_ok v = Inr \<lparr>aborted = False, issues = [], parsed = v\<rparr>"

definition parse_invalid :: "string \<Rightarrow> json \<Rightarrow> error + parse_result" where
  "parse_invalid message v = Inr \<lparr>aborted = True, issues = [message], parsed = v\<rparr>"

definition p_any :: parser where
  "p_any v = parse_ok v"

definition p_string :: parser where
  "p_string v = (case v of JString s \<Rightarrow> parse_ok v | _ \<Rightarrow> parse_invalid ''Expected string'' v)"


definition p_optional :: "parser \<Rightarrow> parser" where
  "p_optional p v = (if v = JUndefined then parse_ok JUndefined else p v)"


text \<open>
  \<open>z.object(shape)\<close>: each declared key is parsed from the property of that name
  (\<open>undefined\<close> when the object has none) and is kept in the parsed value when the object
  has the key or the parsed property is defined. Keys that the shape does not declare are
  dropped.
\<close>

definition own_property :: "(string \<times> json) list \<Rightarrow> string \<Rightarrow> json" where
  "own_property kvs k = (case map_of kvs k of Some v \<Rightarrow> v | None \<Rightarrow> JUndefined)"

definition has_key :: "(string \<times> json) list \<Rightarrow> string \<Rightarrow> bool" where
  "has_key kvs k = (map_of kvs k \<noteq> None)"

definition is_defined :: "json \<Rightarrow> bool" where
  "is_defined v = (v \<noteq> JUndefined)"

definition parse_field :: "(string \<times> json) list \<Rightarrow> string \<times> parser \<Rightarrow> error + (string \<times> parse_result)" where
  "parse_field kvs field =
     (case snd field (own_property kvs (fst field)) of
        Inl e \<Rightarrow> Inl e
      | Inr r \<Rightarrow> Inr (fst field, r))"

definition kept_fields :: "(string \<times> json) list \<Rightarrow> (string \<times> parse_result) list \<Rightarrow> (string \<times> json) list" where
  "kept_fields kvs rs =
     map (\<lambda>kr. (fst kr, parsed (snd kr)))
       (filter (\<lambda>kr. is_defined (parsed (snd kr)) \<or> has_key kvs (fst kr)) rs)"

definition p_object :: "(string \<times> parser) list \<Rightarrow> parser" where
  "p_object shape v =
     (case v of
        JObject kvs \<Rightarrow>
          (case map_throwing (parse_field kvs) shape of
             Inl e \<Rightarrow> Inl e
           | Inr rs \<Rightarrow>
               Inr \<lparr>aborted = list_ex (\<lambda>kr. aborted (snd kr)) rs,
                    issues = concat (map (\<lambda>kr. issues (snd kr)) rs),
                    parsed = JObject (kept_fields kvs rs)\<rparr>)
      | _ \<Rightarrow> parse_invalid ''Expected object'' v)"

text \<open>
  \<open>a.and(b)\<close>: both sides parse the input and their values are merged; objects key by
  key and arrays element by element, any other two values only when they are equal.
\<close>

fun mergeValues :: "json \<Rightarrow> json \<Rightarrow> json option"
  and mergeElements :: "json list \<Rightarrow> json list \<Rightarrow> json list option"
  and mergeShared :: "(string \<times> json) list \<Rightarrow> (string \<times> json) list \<Rightarrow> (string \<times> json) list option" where
  "mergeValues (JObject a) b =
     (case b of
        JObject bs \<Rightarrow>
          (case mergeShared a bs of
             None \<Rightarrow> None
           | Some merged \<Rightarrow> Some (JObject (merged @ filter (\<lambda>kv. fst kv \<notin> fst ` set a) bs)))
      | _ \<Rightarrow> None)"
| "mergeValues (JArray a) b =
     (case b of
        JArray bs \<Rightarrow> (case mergeElements a bs of None \<Rightarrow> None | Some merged \<Rightarrow> Some (JArray merged))
      | _ \<Rightarrow> None)"
| "mergeValues JUndefined b = (if b = JUndefined then Some b else None)"
| "mergeValues JNull b = (if b = JNull then Some b else None)"
| "mergeValues (JBool x) b = (if b = JBool x then Some b else None)"
| "mergeValues (JNumber x) b = (if b = JNumber x then Some b else None)"
| "mergeValues (JString x) b = (if b = JString x then Some b else None)"
| "mergeElements [] bs = (if bs = [] then Some [] else None)"
| "mergeElements (x # xs) bs =
     (case bs of
        [] \<Rightarrow> None
      | y # ys \<Rightarrow>
          (case mergeValues x y of
             None \<Rightarrow> None
           | Some m \<Rightarrow> (case mergeElements xs ys of None \<Rightarrow> None | Some ms \<Rightarrow> Some (m # ms))))"
| "mergeShared [] bs = Some []"
| "mergeShared (kv # a) bs =
     (case map_of bs (fst kv) of
        None \<Rightarrow> (case mergeShared a bs of None \<Rightarrow> None | Some ms \<Rightarrow> Some (kv # ms))
      | Some w \<Rightarrow>
          (case mergeValues (snd kv) w of
             None \<Rightarrow> None
           | Some m \<Rightarrow> (case mergeShared a bs of None \<Rightarrow> None | Some ms \<Rightarrow> Some ((fst kv, m) # ms))))"


text \<open>
  \<open>schema.superRefine(refinement)\<close>: unless the inner parse was aborted, the refinement
  runs on the parsed value and its issues are added; they do not abort.
\<close>

definition p_superRefine :: "parser \<Rightarrow> throwing_refinement \<Rightarrow> parser" where
  "p_superRefine p refinement v =
     (case p v of
        Inl e \<Rightarrow> Inl e
      | Inr r \<Rightarrow>
          (if aborted r then Inr r
           else (case refinement (parsed r) of
                   Inl e \<Rightarrow> Inl e
                 | Inr found \<Rightarrow> Inr (r\<lparr>issues := issues r @ found\<rparr>))))"

text \<open>
  \<open>Object.keys\<close>, \<open>startsWith\<close>, \<open>endsWith\<close>, \<open>join\<close> and \<open>capitalizeFirstLetter\<close>
  (utils/strings.ts). Strings are ASCII here, and so is \<open>toUpperCase\<close>.
\<close>

fun objectKeys :: "json \<Rightarrow> error + string list" where
  "objectKeys JUndefined = Inl (TypeError ''Cannot convert undefined or null to object'')"
| "objectKeys JNull = Inl (TypeError ''Cannot convert undefined or null to object'')"
| "objectKeys (JBool b) = Inr []"
| "objectKeys (JNumber n) = Inr []"
| "objectKeys (JString s) = Inr (map string_of_nat [0 ..< length s])"
| "objectKeys (JArray xs) = Inr (map string_of_nat [0 ..< length xs])"
| "objectKeys (JObject kvs) = Inr (map fst kvs)"










text \<open>
  \<open>createShape\<close>. The state of its loops is the object \<open>shape\<close> (an assignment keeps the
  place of a key that is there already) and the array \<open>refinements\<close>. Two parts of
  \<open>addChild\<close> are parameters: \<open>itemSchema child\<close> is the schema it builds for the child before
  the cardinality is applied (the resolved type, the constraints and the nested
  children), and \<open>createRefinementForSlices\<close> is the function of that name, whose
  refinements evaluate FHIRPath.
\<close>

type_synonym shape_and_refinements = "(string \<times> parser) list \<times> throwing_refinement list"

definition pushRefinement :: "throwing_refinement option \<Rightarrow> shape_and_refinements \<Rightarrow> shape_and_refinements" where
  "pushRefinement refinement st =
     (case refinement of None \<Rightarrow> st | Some r \<Rightarrow> (fst st, snd st @ [r]))"














section \<open>Compile-time errors (structuredefinition/schema-generator.ts,
  structuredefinition/intermediate-format.ts)\<close>

text \<open>
  What the compiler reads of a StructureDefinition here: its \<open>url\<close>, \<open>type\<close>, \<open>kind\<close> and
  the elements of its snapshot, each with its \<open>id\<close>.
\<close>

record ElementDefinition =
  element_id :: "string option"
  element_path :: string

record 'e StructureDefinition =
  sd_url :: string
  sd_type :: string
  sd_kind :: string
  snapshot_element :: "'e list option"

text \<open>
  \<open>convertStructureDefinitionToIntermediateFormat\<close>: it throws when no element has the
  type of the StructureDefinition as its \<open>id\<close>. \<open>convertElements\<close> stands for the rest of
  the function, which converts the root, hangs every other element under its parent and
  throws when a parent is not found.
\<close>

definition convertStructureDefinitionToIntermediateFormat ::
  "('e ElementDefinition_scheme StructureDefinition \<Rightarrow> 'e ElementDefinition_scheme
      \<Rightarrow> 'e ElementDefinition_scheme list \<Rightarrow> error + 'imf)
   \<Rightarrow> 'e ElementDefinition_scheme StructureDefinition \<Rightarrow> error + 'imf" where
  "convertStructureDefinitionToIntermediateFormat convertElements sd =
     (let elements = (case snapshot_element sd of None \<Rightarrow> [] | Some es \<Rightarrow> es) in
      case List.find (\<lambda>element. element_id element = Some (sd_type sd)) elements of
        None \<Rightarrow> Inl (Error (''Could not find root element for StructureDefinition '' @ sd_url sd))
      | Some rootElement \<Rightarrow>
          convertElements sd rootElement (filter (\<lambda>e. e \<noteq> rootElement) elements))"

text \<open>
  \<open>buildSchemaForComplexType\<close>: the \<open>try\<close> around the two conversions and the refinement
  on the converted schema; \<open>convertToSchema\<close> is the function of conversion.ts, applied to
  the resolver already. The function is \<open>async\<close> and awaits \<open>convertToSchema\<close> inside the
  \<open>try\<close>: the model gives the schema that its promise resolves with.
\<close>

definition objectMustHaveContent :: throwing_refinement where
  "objectMustHaveContent data =
     (case objectKeys data of
        Inl e \<Rightarrow> Inl e
      | Inr keys \<Rightarrow> if length keys = 0 then Inr [''Object must have some content''] else Inr [])"

definition buildSchemaForComplexType ::
  "('e ElementDefinition_scheme StructureDefinition \<Rightarrow> 'e ElementDefinition_scheme
      \<Rightarrow> 'e ElementDefinition_scheme list \<Rightarrow> error + 'imf)
   \<Rightarrow> ('imf \<Rightarrow> error + parser)
   \<Rightarrow> 'e ElementDefinition_scheme StructureDefinition \<Rightarrow> parser" where
  "buildSchemaForComplexType convertElements convertToSchema sd =
     (case convertStructureDefinitionToIntermediateFormat convertElements sd of
        Inl e \<Rightarrow> p_optional p_any
      | Inr imf \<Rightarrow>
          (case convertToSchema imf of
             Inl e \<Rightarrow> p_optional p_any
           | Inr schema \<Rightarrow> p_superRefine schema objectMustHaveContent))"

text \<open>
  \<open>buildSchemaForStructureDefinition\<close>, also \<open>async\<close>: the schema that its promise
  resolves with, or the error that rejects it. \<open>buildSchemaForPrimitiveType\<close> is a
  parameter; it has no \<open>try\<close> and throws when the regular expression of the type does not
  compile.
\<close>

definition buildSchemaForStructureDefinition ::
  "('e ElementDefinition_scheme StructureDefinition \<Rightarrow> error + parser)
   \<Rightarrow> ('e ElementDefinition_scheme StructureDefinition \<Rightarrow> 'e ElementDefinition_scheme
      \<Rightarrow> 'e ElementDefinition_scheme list \<Rightarrow> error + 'imf)
   \<Rightarrow> ('imf \<Rightarrow> error + parser)
   \<Rightarrow> 'e ElementDefinition_scheme StructureDefinition \<Rightarrow> error + parser" where
  "buildSchemaForStructureDefinition buildSchemaForPrimitiveType convertElements convertToSchema sd =
     (if sd_kind sd = ''primitive-type'' then buildSchemaForPrimitiveType sd
      else if sd_kind sd = ''complex-type'' \<or> sd_kind sd = ''resource'' \<or> sd_kind sd = ''logical''
      then Inr (buildSchemaForComplexType convertElements convertToSchema sd)
      else Inr (p_optional p_any))"

text \<open>
  Examples: a StructureDefinition whose snapshot has no element for its type, and a
  ValueSet with an include that names neither a system nor a ValueSet.
\<close>

definition rootless :: "ElementDefinition StructureDefinition" where
  "rootless =
     \<lparr>sd_url = ''http://example.org/fhir/StructureDefinition/Rootless'', sd_type = ''Rootless'',
      sd_kind = ''complex-type'',
      snapshot_element = Some [\<lparr>element_id = Some ''Other.field'', element_path = ''Other.field''\<rparr>]\<rparr>"

definition invalid_include_valueset :: ValueSet where
  "invalid_include_valueset =
     \<lparr>vs_url = ''http://example.org/fhir/ValueSet/invalid-include'',
      compose = Some \<lparr>include_list =
                        Some [\<lparr>system = None, concept = None, filter_list = None, valueSet = None\<rparr>],
                      exclude_list = None\<rparr>\<rparr>"

definition invalid_include_file :: ResourceFile where
  "invalid_include_file =
     \<lparr>filePath = ''invalid-include.json'', resourceType = ''ValueSet'',
      url = ''http://example.org/fhir/ValueSet/invalid-include'', name = ''InvalidInclude'',
      kind = None\<rparr>"

text \<open>Nothing has been compiled before: no schema and no CodeSystem is found.\<close>

definition nothing_compiled :: "string \<Rightarrow> schema option" where
  "nothing_compiled nameOrUrl = None"

definition no_codesystem :: "string \<Rightarrow> ConceptHierarchy option" where
  "no_codesystem nameOrUrl = None"

definition string_primitive :: "ElementDefinition StructureDefinition \<Rightarrow> error + parser" where
  "string_primitive sd = Inr p_string"

definition convert_nothing ::
  "ElementDefinition StructureDefinition \<Rightarrow> ElementDefinition \<Rightarrow> ElementDefinition list \<Rightarrow> error + unit" where
  "convert_nothing sd rootElement elements = Inr ()"

definition reject_everything :: "unit \<Rightarrow> error + parser" where
  "reject_everything imf = Inr (p_object [(''resourceType'', p_string)])"

section \<open>Properties\<close>

subsection \<open>The traversal ends for every dependency map\<close>

lemma card_Diff_marked_less:
  assumes "finite U" "node \<in> U" "node \<notin> marked st" "card (U - marked st) < Suc n"
    "marked st2 = insert node (marked st)"
  shows "card (U - marked st2) < n"
proof -
  have "U - marked st2 = (U - marked st) - {node}" using assms(5) by auto
  moreover have "node \<in> U - marked st" using assms by simp
  moreover have "finite (U - marked st)" using assms(1) by simp
  ultimately have "card (U - marked st2) = card (U - marked st) - 1" by simp
  moreover have "card (U - marked st) > 0" using \<open>node \<in> U - marked st\<close> \<open>finite (U - marked st)\<close>
    by (metis card_gt_0_iff empty_iff)
  ultimately show ?thesis using assms(4) by linarith
qed

lemma card_Diff_marked_mono:
  assumes "finite U" "marked st \<subseteq> marked st'" "card (U - marked st) < n"
  shows "card (U - marked st') < n"
proof -
  have "U - marked st' \<subseteq> U - marked st" using assms(2) by auto
  then have "card (U - marked st') \<le> card (U - marked st)"
    using assms(1) by (simp add: card_mono)
  then show ?thesis using assms(3) by simp
qed

text \<open>
  With enough depth a call ends, in a result or in an exception, and a result has
  marked no fewer nodes.
\<close>

lemma dfs_ends_aux:
  assumes closed: "\<forall>u ds. u \<in> U \<longrightarrow> deps_of dm u = Inr ds \<longrightarrow> set ds \<subseteq> U" and fin: "finite U"
  shows "node \<in> U \<longrightarrow> card (U - marked st) < n \<longrightarrow>
            (\<exists>res. dfs n dm node st = Some res \<and>
               (\<forall>r st'. res = Inr (r, st') \<longrightarrow> marked st \<subseteq> marked st'))"
    and "set xs \<subseteq> U \<longrightarrow> card (U - marked st2) < n2 \<longrightarrow>
            (\<exists>res. dfs_neighbors n2 dm xs st2 = Some res \<and>
               (\<forall>r st'. res = Inr (r, st') \<longrightarrow> marked st2 \<subseteq> marked st'))"
  using closed
proof (induction n dm node st and n2 dm xs st2 rule: dfs_dfs_neighbors.induct)
  case (1 dependencyMap node st)
  then show ?case by simp
next
  case (2 n dependencyMap node st)
  show ?case
  proof (intro impI)
    assume nU: "node \<in> U" and c: "card (U - marked st) < Suc n"
    show "\<exists>res. dfs (Suc n) dependencyMap node st = Some res \<and>
               (\<forall>r st'. res = Inr (r, st') \<longrightarrow> marked st \<subseteq> marked st')"
    proof (cases "node \<in> visited st")
      case True
      then show ?thesis by auto
    next
      case nv: False
      show ?thesis
      proof (cases "node \<in> visiting st")
        case True
        then show ?thesis using nv by (auto simp: marked_def)
      next
        case nvg: False
        show ?thesis
        proof (cases "deps_of dependencyMap node")
          case (Inl e)
          then show ?thesis using nv nvg by simp
        next
          case (Inr ds)
          let ?st1 = "st\<lparr>visiting := insert node (visiting st), path := path st @ [node]\<rparr>"
          have m1: "marked ?st1 = insert node (marked st)" by (auto simp: marked_def)
          have "node \<notin> marked st" using nv nvg by (simp add: marked_def)
          then have c1: "card (U - marked ?st1) < n"
            using card_Diff_marked_less[OF fin nU _ c m1] by simp
          have sub: "set ds \<subseteq> U" using "2.prems" nU Inr by blast
          from "2.IH"[OF nv nvg Inr "2.prems"] sub c1
          obtain res where loop: "dfs_neighbors n dependencyMap ds ?st1 = Some res"
            and mono: "\<forall>r st'. res = Inr (r, st') \<longrightarrow> marked ?st1 \<subseteq> marked st'" by blast
          show ?thesis
          proof (cases res)
            case (Inl e)
            then show ?thesis using nv nvg Inr loop by simp
          next
            case r: (Inr p)
            obtain r1 st' where p: "p = (r1, st')" by (cases p)
            have mono': "marked ?st1 \<subseteq> marked st'" using mono r p by simp
            show ?thesis
            proof (cases r1)
              case True
              then have "dfs (Suc n) dependencyMap node st = Some (Inr (True, st'))"
                using nv nvg Inr loop r p by simp
              then show ?thesis using mono' m1 by auto
            next
              case False
              let ?st2 = "st'\<lparr>visiting := visiting st' - {node}, visited := insert node (visited st'),
                              sorted_list := sorted_list st' @ [node], path := butlast (path st')\<rparr>"
              have "marked st' \<subseteq> marked ?st2" by (auto simp: marked_def)
              then have "marked st \<subseteq> marked ?st2" using mono' m1 by auto
              moreover have "dfs (Suc n) dependencyMap node st = Some (Inr (False, ?st2))"
                using nv nvg Inr loop r p False by simp
              ultimately show ?thesis by simp
            qed
          qed
        qed
      qed
    qed
  qed
next
  case (3 n dependencyMap st)
  then show ?case by auto
next
  case (4 n dependencyMap neighbor rest st)
  show ?case
  proof (intro impI)
    assume sub: "set (neighbor # rest) \<subseteq> U" and c: "card (U - marked st) < n"
    from "4.IH"(1)[OF "4.prems"] sub c
    obtain res where d: "dfs n dependencyMap neighbor st = Some res"
      and mono: "\<forall>r st'. res = Inr (r, st') \<longrightarrow> marked st \<subseteq> marked st'" by auto
    show "\<exists>res. dfs_neighbors n dependencyMap (neighbor # rest) st = Some res \<and>
            (\<forall>r st'. res = Inr (r, st') \<longrightarrow> marked st \<subseteq> marked st')"
    proof (cases res)
      case (Inl e)
      then show ?thesis using d by simp
    next
      case r: (Inr p)
      obtain r1 st1 where p: "p = (r1, st1)" by (cases p)
      have mono1: "marked st \<subseteq> marked st1" using mono r p by simp
      show ?thesis
      proof (cases r1)
        case True
        then show ?thesis using d r p mono1 by auto
      next
        case False
        have c': "card (U - marked st1) < n" using card_Diff_marked_mono[OF fin mono1 c] .
        have rF: "r1 = False" using False by simp
        from "4.IH"(2)[OF d r p[symmetric] rF "4.prems"] sub c'
        obtain res2 where l: "dfs_neighbors n dependencyMap rest st1 = Some res2"
          and mono2: "\<forall>r st'. res2 = Inr (r, st') \<longrightarrow> marked st1 \<subseteq> marked st'" by auto
        have "dfs_neighbors n dependencyMap (neighbor # rest) st = Some res2"
          using d r p False l by simp
        then show ?thesis using mono2 mono1 by blast
      qed
    qed
  qed
qed

lemma deps_of_Inr: "deps_of dm u = Inr ds \<Longrightarrow> set ds \<subseteq> set (concat (map snd dm))"
proof (cases "map_of dm u")
  case None
  assume "deps_of dm u = Inr ds"
  then show ?thesis using None by (auto simp: deps_of_def split: if_splits)
next
  case (Some ds')
  assume "deps_of dm u = Inr ds"
  then have "ds = ds'" using Some by (simp add: deps_of_def)
  moreover have "(u, ds') \<in> set dm" using Some by (rule map_of_SomeD)
  then have "set ds' \<subseteq> set (concat (map snd dm))" by force
  ultimately show ?thesis by simp
qed

lemma graph_nodes_closed:
  "u \<in> set (graph_nodes dm) \<Longrightarrow> deps_of dm u = Inr ds \<Longrightarrow> set ds \<subseteq> set (graph_nodes dm)"
  using deps_of_Inr[of dm u ds] by (auto simp: graph_nodes_def)

lemma process_nodes_ends_aux:
  "set ks \<subseteq> set (graph_nodes dm) \<Longrightarrow> \<exists>res. process_nodes (depth_bound dm) dm ks st = Some res"
proof (induction ks arbitrary: st)
  case Nil
  then show ?case by simp
next
  case (Cons k ks)
  let ?U = "set (graph_nodes dm)"
  have "card (?U - marked (st\<lparr>path := []\<rparr>)) \<le> card ?U" by (simp add: card_mono)
  also have "\<dots> < depth_bound dm" by (simp add: depth_bound_def card_length le_imp_less_Suc)
  finally have c: "card (?U - marked (st\<lparr>path := []\<rparr>)) < depth_bound dm" .
  have "k \<in> ?U" using Cons.prems by simp
  moreover have "\<forall>u ds. u \<in> ?U \<longrightarrow> deps_of dm u = Inr ds \<longrightarrow> set ds \<subseteq> ?U"
    using graph_nodes_closed by blast
  ultimately obtain res where d: "dfs (depth_bound dm) dm k (st\<lparr>path := []\<rparr>) = Some res"
    using dfs_ends_aux(1)[of ?U dm k "st\<lparr>path := []\<rparr>" "depth_bound dm"] c by blast
  have ks: "set ks \<subseteq> ?U" using Cons.prems by simp
  show ?case
  proof (cases "k \<in> visited st")
    case True
    then show ?thesis using Cons.IH[OF ks] by simp
  next
    case False
    show ?thesis
    proof (cases res)
      case (Inl e)
      then show ?thesis using d False by simp
    next
      case (Inr p)
      obtain r st' where "p = (r, st')" by (cases p)
      then show ?thesis using d False Inr Cons.IH[OF ks, of st'] by simp
    qed
  qed
qed

lemma set_object_keys: "set (object_keys obj) = fst ` set obj"
  by (auto simp: object_keys_def)

lemma topologicalSort_ends: "\<exists>res. topologicalSortWithTransitiveResolution dm = Some res"
proof -
  have "set (object_keys dm) \<subseteq> set (graph_nodes dm)"
    by (auto simp: graph_nodes_def set_object_keys)
  from process_nodes_ends_aux[OF this, of initial_state]
  obtain res where "process_nodes (depth_bound dm) dm (object_keys dm) initial_state = Some res"
    by blast
  then show ?thesis
    by (cases res) (auto simp: topologicalSortWithTransitiveResolution_def)
qed

subsection \<open>Acyclic graphs: no cycle is reported and dependencies are appended first\<close>





subsection \<open>The dependency map, indexOf and the reversed post-order\<close>

lemma set_uniqueBy_loop_id:
  "set (uniqueBy_loop (\<lambda>item. item) arr seen result) = set result \<union> (set arr - seen)"
  by (induction arr arbitrary: seen result) (auto simp: Let_def)

lemma set_unique: "set (unique arr) = set arr"
  by (simp add: unique_def uniqueBy_def set_uniqueBy_loop_id)

lemma buildDependencyMap_snoc:
  "buildDependencyMap extractDeps (fs @ [f]) =
     addDependencies extractDeps (buildDependencyMap extractDeps fs) f"
  by (simp add: buildDependencyMap_def)

lemma dep_edges_update:
  "((u, v) \<in> dep_edges (AList.update k ds dm)) = (if u = k then v \<in> set ds else (u, v) \<in> dep_edges dm)"
  by (simp add: dep_edges_def update_conv')

lemma file_dependencies_snoc:
  "((u, v) \<in> file_dependencies extractDeps (fs @ [f])) =
     ((u, v) \<in> file_dependencies extractDeps fs \<or> (u = url f \<and> v \<in> set (extractDeps f)))"
  by (auto simp: file_dependencies_def)

text \<open>
  When no URL is the name of an inherited member the map is built, its keys are the URLs
  and its edges are the dependencies that the files declare.
\<close>

lemma buildDependencyMap_returns:
  assumes "\<forall>f \<in> set fs. url f \<notin> set prototype_names"
  shows "\<exists>dm. buildDependencyMap extractDeps fs = Inr dm \<and> fst ` set dm = url ` set fs \<and>
           dep_edges dm = file_dependencies extractDeps fs"
  using assms
proof (induction fs rule: rev_induct)
  case Nil
  then show ?case by (simp add: buildDependencyMap_def dep_edges_def file_dependencies_def)
next
  case (snoc f fs)
  then obtain dm where dm: "buildDependencyMap extractDeps fs = Inr dm"
    and keys: "fst ` set dm = url ` set fs"
    and edges: "dep_edges dm = file_dependencies extractDeps fs"
    by auto
  have np: "url f \<notin> set prototype_names" using snoc.prems by simp
  define old where "old = (case map_of dm (url f) of Some ds \<Rightarrow> ds | None \<Rightarrow> [])"
  have old: "deps_of dm (url f) = Inr old"
    using np by (simp add: deps_of_def old_def split: option.splits)
  let ?dm' = "AList.update (url f) (unique (old @ extractDeps f)) dm"
  have b: "buildDependencyMap extractDeps (fs @ [f]) = Inr ?dm'"
    by (simp add: buildDependencyMap_snoc dm addDependencies_def old)
  have k: "fst ` set ?dm' = url ` set (fs @ [f])" using keys by (simp add: dom_update)
  have oldset: "\<And>v. (v \<in> set old) = ((url f, v) \<in> dep_edges dm)"
    by (cases "map_of dm (url f)") (simp_all add: old_def dep_edges_def)
  have "(u, v) \<in> dep_edges ?dm' \<longleftrightarrow> (u, v) \<in> file_dependencies extractDeps (fs @ [f])" for u v
  proof (cases "u = url f")
    case True
    have "(u, v) \<in> dep_edges ?dm' \<longleftrightarrow> v \<in> set old \<or> v \<in> set (extractDeps f)"
      using True by (simp add: dep_edges_update set_unique)
    also have "\<dots> \<longleftrightarrow> (u, v) \<in> file_dependencies extractDeps fs \<or> v \<in> set (extractDeps f)"
      using True oldset edges by simp
    also have "\<dots> \<longleftrightarrow> (u, v) \<in> file_dependencies extractDeps (fs @ [f])"
      using True by (simp add: file_dependencies_snoc)
    finally show ?thesis .
  next
    case False
    then show ?thesis using edges by (simp add: dep_edges_update file_dependencies_snoc)
  qed
  then have "dep_edges ?dm' = file_dependencies extractDeps (fs @ [f])" by auto
  then show ?case using b k by blast
qed

text \<open>A URL that is the name of an inherited member makes the spread throw.\<close>

lemma buildDependencyMap_Inr_snoc:
  assumes "buildDependencyMap extractDeps (fs @ [f]) = Inr dm"
  shows "\<exists>dm0 old. buildDependencyMap extractDeps fs = Inr dm0 \<and> deps_of dm0 (url f) = Inr old \<and>
           dm = AList.update (url f) (unique (old @ extractDeps f)) dm0"
proof (cases "buildDependencyMap extractDeps fs")
  case (Inl e)
  then show ?thesis using assms by (simp add: buildDependencyMap_snoc addDependencies_def)
next
  case (Inr dm0)
  show ?thesis
  proof (cases "deps_of dm0 (url f)")
    case (Inl e)
    then show ?thesis using assms Inr by (simp add: buildDependencyMap_snoc addDependencies_def)
  next
    case old: (Inr old)
    then show ?thesis using assms Inr by (simp add: buildDependencyMap_snoc addDependencies_def)
  qed
qed

lemma buildDependencyMap_keys:
  "buildDependencyMap extractDeps fs = Inr dm \<Longrightarrow> fst ` set dm = url ` set fs"
proof (induction fs arbitrary: dm rule: rev_induct)
  case Nil
  then show ?case by (simp add: buildDependencyMap_def)
next
  case (snoc f fs)
  from buildDependencyMap_Inr_snoc[OF snoc.prems]
  obtain dm0 old where b: "buildDependencyMap extractDeps fs = Inr dm0"
    and dm: "dm = AList.update (url f) (unique (old @ extractDeps f)) dm0"
    by blast
  have "fst ` set dm0 = url ` set fs" using b by (rule snoc.IH)
  then show ?case by (simp add: dm dom_update)
qed

lemma buildDependencyMap_Inr_names:
  "buildDependencyMap extractDeps fs = Inr dm \<Longrightarrow> f \<in> set fs \<Longrightarrow> url f \<notin> set prototype_names"
proof (induction fs arbitrary: dm f rule: rev_induct)
  case Nil
  then show ?case by simp
next
  case (snoc g gs)
  from buildDependencyMap_Inr_snoc[OF snoc.prems(1)]
  obtain dm0 old where b: "buildDependencyMap extractDeps gs = Inr dm0"
    and old: "deps_of dm0 (url g) = Inr old"
    by blast
  have keys: "fst ` set dm0 = url ` set gs" using b by (rule buildDependencyMap_keys)
  show ?case
  proof (cases "f \<in> set gs")
    case True
    with b show ?thesis by (rule snoc.IH)
  next
    case False
    then have fg: "f = g" using snoc.prems(2) by simp
    show ?thesis
    proof
      assume p: "url f \<in> set prototype_names"
      have "map_of dm0 (url g) \<noteq> None"
        using old p fg by (auto simp: deps_of_def split: option.splits)
      then have "url g \<in> fst ` set dm0" by (metis domIff dom_map_of_conv_image_fst)
      then obtain h where h: "h \<in> set gs" and hu: "url h = url g" using keys by auto
      have "url h \<notin> set prototype_names" using b h by (rule snoc.IH)
      then show False using p fg hu by simp
    qed
  qed
qed

lemma buildDependencyMap_throws:
  assumes "f \<in> set fs" and "url f \<in> set prototype_names"
  shows "\<exists>e. buildDependencyMap extractDeps fs = Inl e"
proof (cases "buildDependencyMap extractDeps fs")
  case (Inl e)
  then show ?thesis by blast
next
  case (Inr dm)
  then have "url f \<notin> set prototype_names" using assms(1) by (rule buildDependencyMap_Inr_names)
  then show ?thesis using assms(2) by simp
qed

lemma indexOf_ge: "- 1 \<le> indexOf xs x"
  by (induction xs) (auto simp: Let_def)

lemma indexOf_in: "(- 1 < indexOf xs x) = (x \<in> set xs)"
  by (induction xs) (auto simp: Let_def)




text \<open>
  No read finds an inherited member when every node of the graph is a key or bears no
  name of \<open>Object.prototype\<close>; then no call throws.
\<close>

lemma dfs_no_throw_aux:
  assumes safe: "\<forall>u \<in> U. \<exists>ds. deps_of dm u = Inr ds \<and> set ds \<subseteq> U"
  shows "node \<in> U \<longrightarrow> dfs n dm node st \<noteq> Some (Inl e)"
    and "set xs \<subseteq> U \<longrightarrow> dfs_neighbors n2 dm xs st2 \<noteq> Some (Inl e)"
  using safe
proof (induction n dm node st and n2 dm xs st2 rule: dfs_dfs_neighbors.induct)
  case (1 dependencyMap node st)
  then show ?case by simp
next
  case (2 n dm node st)
  show ?case
  proof (intro impI)
    assume nU: "node \<in> U"
    then obtain ds where ds: "deps_of dm node = Inr ds" and sub: "set ds \<subseteq> U"
      using "2.prems" by blast
    show "dfs (Suc n) dm node st \<noteq> Some (Inl e)"
    proof (cases "node \<in> visited st")
      case True
      then show ?thesis by simp
    next
      case nv: False
      show ?thesis
      proof (cases "node \<in> visiting st")
        case True
        then show ?thesis using nv by simp
      next
        case nvg: False
        from "2.IH"[OF nv nvg ds "2.prems"] sub
        have "dfs_neighbors n dm ds (st\<lparr>visiting := insert node (visiting st),
                path := path st @ [node]\<rparr>) \<noteq> Some (Inl e)" by blast
        then show ?thesis using nv nvg ds
          by (auto split: option.splits sum.splits bool.splits)
      qed
    qed
  qed
next
  case (3 n dm st)
  then show ?case by simp
next
  case (4 n dm neighbor rest st)
  show ?case
  proof (intro impI)
    assume sub: "set (neighbor # rest) \<subseteq> U"
    from "4.IH"(1)[OF "4.prems"] sub
    have d: "dfs n dm neighbor st \<noteq> Some (Inl e)" by simp
    show "dfs_neighbors n dm (neighbor # rest) st \<noteq> Some (Inl e)"
    proof (cases "dfs n dm neighbor st")
      case None
      then show ?thesis by simp
    next
      case (Some res)
      show ?thesis
      proof (cases res)
        case (Inl e')
        then show ?thesis using Some d by simp
      next
        case (Inr p)
        obtain r1 st1 where p: "p = (r1, st1)" by (cases p)
        show ?thesis
        proof (cases r1)
          case True
          then show ?thesis using Some Inr p by simp
        next
          case False
          then have rF: "r1 = False" by simp
          from "4.IH"(2)[OF Some Inr p[symmetric] rF "4.prems"] sub
          have "dfs_neighbors n dm rest st1 \<noteq> Some (Inl e)" by simp
          then show ?thesis using Some Inr p False by simp
        qed
      qed
    qed
  qed
qed

lemma process_nodes_no_throw:
  assumes safe: "\<forall>u \<in> U. \<exists>ds. deps_of dm u = Inr ds \<and> set ds \<subseteq> U"
  shows "set ks \<subseteq> U \<Longrightarrow> process_nodes n dm ks st \<noteq> Some (Inl e)"
proof (induction ks arbitrary: st)
  case Nil
  then show ?case by simp
next
  case (Cons k ks)
  have k: "k \<in> U" and ks: "set ks \<subseteq> U" using Cons.prems by simp_all
  have d: "dfs n dm k (st\<lparr>path := []\<rparr>) \<noteq> Some (Inl e)"
    using dfs_no_throw_aux(1)[OF safe] k by blast
  show ?case
  proof (cases "k \<in> visited st")
    case True
    then show ?thesis using Cons.IH[OF ks] by simp
  next
    case False
    then show ?thesis using d Cons.IH[OF ks]
      by (auto split: option.splits sum.splits)
  qed
qed

lemma topologicalSort_returns:
  assumes "\<forall>u \<in> set (graph_nodes dm). u \<in> fst ` set dm \<or> u \<notin> set prototype_names"
  shows "\<exists>res. topologicalSortWithTransitiveResolution dm = Some (Inr res)"
proof -
  let ?U = "set (graph_nodes dm)"
  have safe: "\<forall>u \<in> ?U. \<exists>ds. deps_of dm u = Inr ds \<and> set ds \<subseteq> ?U"
  proof
    fix u assume u: "u \<in> ?U"
    have "\<exists>ds. deps_of dm u = Inr ds"
    proof (cases "map_of dm u")
      case None
      then have "u \<notin> fst ` set dm" by (metis domIff dom_map_of_conv_image_fst)
      then have "u \<notin> set prototype_names" using assms u by blast
      then show ?thesis using None by (simp add: deps_of_def)
    next
      case (Some ds)
      then show ?thesis by (simp add: deps_of_def)
    qed
    then show "\<exists>ds. deps_of dm u = Inr ds \<and> set ds \<subseteq> ?U"
      using graph_nodes_closed[OF u] by blast
  qed
  have keys: "set (object_keys dm) \<subseteq> ?U" by (auto simp: graph_nodes_def set_object_keys)
  obtain outcome where o: "process_nodes (depth_bound dm) dm (object_keys dm) initial_state = Some outcome"
    using process_nodes_ends_aux[OF keys] by blast
  have "outcome \<noteq> Inl e" for e
    using process_nodes_no_throw[OF safe keys, of "depth_bound dm" initial_state e] o by simp
  then obtain st where "outcome = Inr st" by (cases outcome) auto
  then show ?thesis using o by (simp add: topologicalSortWithTransitiveResolution_def)
qed

subsection \<open>Sorting with a comparator\<close>

lemma set_insert_by: "set (insert_by cmp x ys) = insert x (set ys)"
  by (induction ys) auto





subsection \<open>Topological correctness of the compile order\<close>


lemma buildDependencyMap_distinct:
  "buildDependencyMap extractDeps fs = Inr dm \<Longrightarrow> distinct (map fst dm)"
proof (induction fs arbitrary: dm rule: rev_induct)
  case Nil
  then show ?case by (simp add: buildDependencyMap_def)
next
  case (snoc f fs)
  from buildDependencyMap_Inr_snoc[OF snoc.prems]
  obtain dm0 old where b: "buildDependencyMap extractDeps fs = Inr dm0"
    and d: "dm = AList.update (url f) (unique (old @ extractDeps f)) dm0"
    by blast
  show ?case using snoc.IH[OF b] by (simp add: d distinct_update)
qed

text \<open>
  When no URL and no declared dependency names a member of \<open>Object.prototype\<close>, no read
  of the dependency map finds an inherited member: the map is built, the sorter returns a result
  and \<open>sortResourceFilesByDependencies\<close> returns the comparator over its \<open>sorted\<close>.
\<close>

lemma sortResourceFilesByDependencies_returns:
  assumes names: "\<forall>f \<in> set resourceFiles. url f \<notin> set prototype_names \<and>
                  (\<forall>d \<in> set (extractDeps f). d \<notin> set prototype_names)"
  shows "\<exists>dm res. buildDependencyMap extractDeps resourceFiles = Inr dm \<and>
           fst ` set dm = url ` set resourceFiles \<and>
           dep_edges dm = file_dependencies extractDeps resourceFiles \<and>
           topologicalSortWithTransitiveResolution dm = Some (Inr res) \<and>
           sortResourceFilesByDependencies localeCompare extractDeps resourceFiles
             = Some (Inr (dependencyComparator localeCompare (sorted_res res)))"
proof -
  from names have "\<forall>f \<in> set resourceFiles. url f \<notin> set prototype_names" by blast
  from buildDependencyMap_returns[OF this, of extractDeps]
  obtain dm where dm: "buildDependencyMap extractDeps resourceFiles = Inr dm"
    and keys: "fst ` set dm = url ` set resourceFiles"
    and edges: "dep_edges dm = file_dependencies extractDeps resourceFiles"
    by blast
  have safe: "\<forall>u \<in> set (graph_nodes dm). u \<in> fst ` set dm \<or> u \<notin> set prototype_names"
  proof
    fix u assume "u \<in> set (graph_nodes dm)"
    then consider "u \<in> fst ` set dm" | k ds where "(k, ds) \<in> set dm" "u \<in> set ds"
      by (auto simp: graph_nodes_def)
    then show "u \<in> fst ` set dm \<or> u \<notin> set prototype_names"
    proof cases
      case 1
      then show ?thesis by simp
    next
      case 2
      show ?thesis
      proof (cases "u \<in> fst ` set dm")
        case True
        then show ?thesis by simp
      next
        case False
        have "k \<in> fst ` set dm" using 2(1) by force
        then obtain ds' where m: "map_of dm k = Some ds'"
          by (metis domD dom_map_of_conv_image_fst)
        show ?thesis
        proof (cases "u \<in> set ds'")
          case True
          then have "(k, u) \<in> dep_edges dm" using m by (auto simp: dep_edges_def)
          then have "(k, u) \<in> file_dependencies extractDeps resourceFiles" using edges by simp
          then show ?thesis using names by (auto simp: file_dependencies_def)
        next
          case nin: False
          have "distinct (map fst dm)" using dm by (rule buildDependencyMap_distinct)
          then have "map_of dm k = Some ds" using 2(1) by simp
          then show ?thesis using m nin 2(2) by simp
        qed
      qed
    qed
  qed
  obtain res where res: "topologicalSortWithTransitiveResolution dm = Some (Inr res)"
    using topologicalSort_returns[OF safe] by blast
  have "sortResourceFilesByDependencies localeCompare extractDeps resourceFiles
          = Some (Inr (dependencyComparator localeCompare (sorted_res res)))"
    using dm res by (simp add: sortResourceFilesByDependencies_def)
  then show ?thesis using dm keys edges res by blast
qed


lemmas sorter_examples =
  topologicalSortWithTransitiveResolution_def depth_bound_def graph_nodes_def initial_state_def
  deps_of_def object_keys_def array_index_def prototype_names_def






lemma ex_map:
  "buildDependencyMap ex_extract [stubResourceFile ''b'', stubResourceFile ''a'']
     = Inr [(''b'', [''a'']), (''a'', [])]"
  by (simp add: buildDependencyMap_def addDependencies_def ex_extract_def stubResourceFile_def
      deps_of_def prototype_names_def unique_def uniqueBy_def Let_def)

lemma ex_sorted:
  "topologicalSortWithTransitiveResolution [(''b'', [''a'']), (''a'', [])]
     = Some (Inr \<lparr>sorted_res = [''b'', ''a''], cycles_res = []\<rparr>)"
  by (simp add: sorter_examples)




subsection \<open>Cycles: the traversal stops at the first back edge\<close>

lemma dfs_effect_refl: "dfs_effect st False st"
  by (simp add: dfs_effect_def)

lemma dfs_effect_trans:
  assumes a: "dfs_effect st False st1" and b: "dfs_effect st1 r st'"
  shows "dfs_effect st r st'"
proof -
  have v: "visited st \<subseteq> visited st1" "visited st1 \<subseteq> visited st'"
    and g: "visiting st1 = visiting st" "visiting st1 \<subseteq> visiting st'"
    and n1: "(visited st1 - visited st) \<inter> visiting st = {}"
    and n2: "(visited st' - visited st1) \<inter> visiting st1 = {}"
    and c1: "cycles_list st1 = cycles_list st" and p1: "path st1 = path st"
    using a b by (simp_all add: dfs_effect_def)
  have "(visited st' - visited st) \<inter> visiting st = {}" using n1 n2 g(1) by auto
  moreover have "set (sorted_list st) = visited st \<longrightarrow> set (sorted_list st') = visited st'"
    using a b by (simp add: dfs_effect_def)
  moreover have "visited st \<inter> visiting st = {} \<longrightarrow> visited st' \<inter> visiting st' = {}"
  proof
    assume "visited st \<inter> visiting st = {}"
    then have "visited st1 \<inter> visiting st1 = {}" using a unfolding dfs_effect_def by blast
    then show "visited st' \<inter> visiting st' = {}" using b unfolding dfs_effect_def by blast
  qed
  moreover have "if r then cycles_list st' = cycles_list st @ [path st'] \<and> (\<exists>p. path st' = path st @ p)
      else cycles_list st' = cycles_list st \<and> path st' = path st \<and> visiting st' = visiting st"
    using b c1 p1 g(1) by (simp add: dfs_effect_def split: if_splits)
  ultimately show ?thesis using v g unfolding dfs_effect_def by (intro conjI) auto
qed

lemma dfs_effect_enter_abort:
  assumes nv: "node \<notin> visited st"
    and b: "dfs_effect (st\<lparr>visiting := insert node (visiting st), path := path st @ [node]\<rparr>) True st'"
  shows "dfs_effect st True st' \<and> node \<in> visiting st' \<and> node \<notin> visited st'"
proof -
  let ?st1 = "st\<lparr>visiting := insert node (visiting st), path := path st @ [node]\<rparr>"
  have v: "visited st \<subseteq> visited st'" and g: "insert node (visiting st) \<subseteq> visiting st'"
    and n: "(visited st' - visited st) \<inter> insert node (visiting st) = {}"
    and s: "set (sorted_list st) = visited st \<longrightarrow> set (sorted_list st') = visited st'"
    and d: "visited st \<inter> insert node (visiting st) = {} \<longrightarrow> visited st' \<inter> visiting st' = {}"
    and c: "cycles_list st' = cycles_list st @ [path st']"
    and p: "\<exists>p. path st' = (path st @ [node]) @ p"
    using b by (simp_all add: dfs_effect_def)
  have "node \<notin> visited st'" using n nv by auto
  moreover have "node \<in> visiting st'" using g by simp
  moreover have "\<exists>p. path st' = path st @ p" using p by auto
  moreover have "visited st \<inter> visiting st = {} \<longrightarrow> visited st' \<inter> visiting st' = {}"
    using d nv by auto
  moreover have "(visited st' - visited st) \<inter> visiting st = {}" using n by auto
  ultimately show ?thesis using v g s c unfolding dfs_effect_def by (intro conjI) auto
qed

lemma dfs_effect_enter_finish:
  assumes nv: "node \<notin> visited st" and nvg: "node \<notin> visiting st"
    and b: "dfs_effect (st\<lparr>visiting := insert node (visiting st), path := path st @ [node]\<rparr>) False st1"
  shows "dfs_effect st False
           (st1\<lparr>visiting := visiting st1 - {node}, visited := insert node (visited st1),
                sorted_list := sorted_list st1 @ [node], path := butlast (path st1)\<rparr>)"
proof -
  have b': "visited st \<subseteq> visited st1 \<and> visiting st1 = insert node (visiting st) \<and>
      (visited st1 - visited st) \<inter> insert node (visiting st) = {} \<and>
      (set (sorted_list st) = visited st \<longrightarrow> set (sorted_list st1) = visited st1) \<and>
      (visited st \<inter> insert node (visiting st) = {} \<longrightarrow> visited st1 \<inter> visiting st1 = {}) \<and>
      cycles_list st1 = cycles_list st \<and> path st1 = path st @ [node]"
    using b unfolding dfs_effect_def by auto
  have v: "visited st \<subseteq> visited st1" and g: "visiting st1 = insert node (visiting st)"
    and n: "(visited st1 - visited st) \<inter> insert node (visiting st) = {}"
    and s: "set (sorted_list st) = visited st \<longrightarrow> set (sorted_list st1) = visited st1"
    and d: "visited st \<inter> insert node (visiting st) = {} \<longrightarrow> visited st1 \<inter> visiting st1 = {}"
    and c: "cycles_list st1 = cycles_list st"
    and p: "path st1 = path st @ [node]"
    using b' by blast+
  have d': "visited st \<inter> visiting st = {} \<longrightarrow> visited st1 \<inter> visiting st1 = {}"
    using d nv by auto
  show ?thesis
    unfolding dfs_effect_def
  proof (intro conjI)
    show "(visited (st1\<lparr>visiting := visiting st1 - {node}, visited := insert node (visited st1),
                sorted_list := sorted_list st1 @ [node], path := butlast (path st1)\<rparr>) - visited st)
            \<inter> visiting st = {}"
      using n nvg by auto
    show "visited st \<inter> visiting st = {} \<longrightarrow>
          visited (st1\<lparr>visiting := visiting st1 - {node}, visited := insert node (visited st1),
                sorted_list := sorted_list st1 @ [node], path := butlast (path st1)\<rparr>) \<inter>
          visiting (st1\<lparr>visiting := visiting st1 - {node}, visited := insert node (visited st1),
                sorted_list := sorted_list st1 @ [node], path := butlast (path st1)\<rparr>) = {}"
      using d' by auto
  qed (use v g s c p nvg in auto)
qed

lemma dfs_abort_aux:
  "\<forall>r st'. dfs n dm node st = Some (Inr (r, st')) \<longrightarrow>
      dfs_effect st r st' \<and>
      (if r then node \<in> visiting st' \<and> node \<notin> visited st' else node \<in> visited st')"
  "\<forall>r st'. dfs_neighbors n2 dm xs st2 = Some (Inr (r, st')) \<longrightarrow>
      dfs_effect st2 r st' \<and>
      (if r then (\<exists>x \<in> set xs. x \<in> visiting st' \<and> x \<notin> visited st') else set xs \<subseteq> visited st')"
proof (induction n dm node st and n2 dm xs st2 rule: dfs_dfs_neighbors.induct)
  case (1 dm node st)
  then show ?case by simp
next
  case (2 n dm node st)
  show ?case
  proof (intro allI impI)
    fix r st'
    assume res: "dfs (Suc n) dm node st = Some (Inr (r, st'))"
    show "dfs_effect st r st' \<and>
          (if r then node \<in> visiting st' \<and> node \<notin> visited st' else node \<in> visited st')"
    proof (cases "node \<in> visited st")
      case True
      then have "r = False" "st' = st" using res by auto
      then show ?thesis using True by (simp add: dfs_effect_refl)
    next
      case nv: False
      show ?thesis
      proof (cases "node \<in> visiting st")
        case True
        then have "r = True" "st' = st\<lparr>cycles_list := cycles_list st @ [path st]\<rparr>"
          using res nv by auto
        then show ?thesis using True nv by (simp add: dfs_effect_def)
      next
        case nvg: False
        let ?st1 = "st\<lparr>visiting := insert node (visiting st), path := path st @ [node]\<rparr>"
        obtain ds where ds: "deps_of dm node = Inr ds"
          using res nv nvg by (cases "deps_of dm node") auto
        obtain r1 st1' where loop: "dfs_neighbors n dm ds ?st1 = Some (Inr (r1, st1'))"
          using res nv nvg ds by (auto split: option.splits sum.splits)
        from "2.IH"[OF nv nvg ds] loop
        have ih: "dfs_effect ?st1 r1 st1'" by blast
        show ?thesis
        proof (cases r1)
          case True
          then have "r = True" "st' = st1'" using res nv nvg ds loop by auto
          then show ?thesis using dfs_effect_enter_abort[OF nv] ih True by simp
        next
          case False
          then have r: "r = False"
            and st': "st' = st1'\<lparr>visiting := visiting st1' - {node}, visited := insert node (visited st1'),
                       sorted_list := sorted_list st1' @ [node], path := butlast (path st1')\<rparr>"
            using res nv nvg ds loop by auto
          have "dfs_effect st False st'"
            unfolding st' using nv nvg ih False by (intro dfs_effect_enter_finish) simp_all
          then show ?thesis using r st' by simp
        qed
      qed
    qed
  qed
next
  case (3 n dm st)
  then show ?case by (simp add: dfs_effect_refl)
next
  case (4 n dm neighbor rest st)
  show ?case
  proof (intro allI impI)
    fix r st'
    assume res: "dfs_neighbors n dm (neighbor # rest) st = Some (Inr (r, st'))"
    obtain r1 st1 where d: "dfs n dm neighbor st = Some (Inr (r1, st1))"
      using res by (auto split: option.splits sum.splits)
    from "4.IH"(1) d
    have e1: "dfs_effect st r1 st1"
      and n1: "if r1 then neighbor \<in> visiting st1 \<and> neighbor \<notin> visited st1
               else neighbor \<in> visited st1" by blast+
    show "dfs_effect st r st' \<and>
          (if r then (\<exists>x \<in> set (neighbor # rest). x \<in> visiting st' \<and> x \<notin> visited st')
           else set (neighbor # rest) \<subseteq> visited st')"
    proof (cases r1)
      case True
      then have "r = True" "st' = st1" using res d by auto
      then show ?thesis using e1 n1 True by auto
    next
      case False
      then have r1F: "r1 = False" by simp
      have l: "dfs_neighbors n dm rest st1 = Some (Inr (r, st'))" using res d False by simp
      from "4.IH"(2)[OF d refl refl r1F] l
      have e2: "dfs_effect st1 r st'"
        and n2: "if r then (\<exists>x \<in> set rest. x \<in> visiting st' \<and> x \<notin> visited st')
                 else set rest \<subseteq> visited st'" by blast+
      have e: "dfs_effect st r st'" using e1 e2 r1F by (auto intro: dfs_effect_trans)
      have "neighbor \<in> visited st'" using n1 False e2 by (auto simp: dfs_effect_def)
      then show ?thesis using e n2 by (auto split: if_splits)
    qed
  qed
qed

text \<open>
  When the call for a neighbour returns \<open>true\<close>, the loop ends with the state of that call,
  whatever neighbours remain.
\<close>

lemma dfs_neighbors_abort:
  "dfs_neighbors n dm xs st = Some (Inr (False, st1)) \<Longrightarrow> dfs n dm y st1 = Some (Inr (True, st2)) \<Longrightarrow>
   dfs_neighbors n dm (xs @ y # zs) st = Some (Inr (True, st2))"
proof (induction xs arbitrary: st)
  case Nil
  then show ?case by simp
next
  case (Cons x xs)
  obtain r sta where d: "dfs n dm x st = Some (Inr (r, sta))"
    using Cons.prems(1) by (auto split: option.splits sum.splits)
  have r: "r = False"
    using Cons.prems(1) d by (cases r) auto
  then have "dfs_neighbors n dm xs sta = Some (Inr (False, st1))" using Cons.prems(1) d by simp
  from Cons.IH[OF this Cons.prems(2)] show ?case using d r by simp
qed

lemma process_nodes_cycles:
  "process_nodes n dm ks st = Some (Inr st') \<Longrightarrow> set (sorted_list st) = visited st \<Longrightarrow>
   visited st \<inter> visiting st = {} \<Longrightarrow>
   set (sorted_list st') = visited st' \<and> visited st' \<inter> visiting st' = {} \<and>
   visited st \<subseteq> visited st' \<and> visiting st \<subseteq> visiting st' \<and>
   length (cycles_list st) \<le> length (cycles_list st') \<and>
   (cycles_list st' = cycles_list st \<longrightarrow> set ks \<subseteq> visited st') \<and>
   (cycles_list st' \<noteq> cycles_list st \<longrightarrow> (\<exists>k \<in> set ks. k \<notin> visited st'))"
proof (induction ks arbitrary: st)
  case Nil
  then show ?case by simp
next
  case (Cons k ks)
  show ?case
  proof (cases "k \<in> visited st")
    case True
    then have "process_nodes n dm ks st = Some (Inr st')" using Cons.prems(1) by simp
    from Cons.IH[OF this Cons.prems(2,3)] True show ?thesis by auto
  next
    case False
    let ?st0 = "st\<lparr>path := []\<rparr>"
    obtain r st1 where d: "dfs n dm k ?st0 = Some (Inr (r, st1))"
      and rest: "process_nodes n dm ks st1 = Some (Inr st')"
      using Cons.prems(1) False by (auto split: option.splits sum.splits)
    from dfs_abort_aux(1)[of n dm k ?st0] d
    have e: "dfs_effect ?st0 r st1"
      and k: "if r then k \<in> visiting st1 \<and> k \<notin> visited st1 else k \<in> visited st1" by blast+
    have s1: "set (sorted_list st1) = visited st1" and d1: "visited st1 \<inter> visiting st1 = {}"
      and v1: "visited st \<subseteq> visited st1" and g1: "visiting st \<subseteq> visiting st1"
      using e Cons.prems(2,3) by (auto simp: dfs_effect_def)
    from Cons.IH[OF rest s1 d1]
    have s': "set (sorted_list st') = visited st'" and d': "visited st' \<inter> visiting st' = {}"
      and v': "visited st1 \<subseteq> visited st'" and g': "visiting st1 \<subseteq> visiting st'"
      and len: "length (cycles_list st1) \<le> length (cycles_list st')"
      and same: "cycles_list st' = cycles_list st1 \<longrightarrow> set ks \<subseteq> visited st'"
      and diff: "cycles_list st' \<noteq> cycles_list st1 \<longrightarrow> (\<exists>k \<in> set ks. k \<notin> visited st')"
      by blast+
    show ?thesis
    proof (cases r)
      case True
      then have c1: "length (cycles_list st1) = Suc (length (cycles_list st))"
        using e by (simp add: dfs_effect_def)
      have "k \<notin> visited st'" using k True g' d' by auto
      moreover have "cycles_list st' \<noteq> cycles_list st" using c1 len by auto
      moreover have "length (cycles_list st) \<le> length (cycles_list st')" using c1 len by simp
      ultimately show ?thesis using s' d' v1 v' g1 g' by auto
    next
      case False
      then have c1: "cycles_list st1 = cycles_list st" using e by (simp add: dfs_effect_def)
      have "k \<in> visited st'" using k False v' by auto
      then show ?thesis using s' d' v1 v' g1 g' len same diff c1 by auto
    qed
  qed
qed

lemma topologicalSort_cycles:
  assumes "topologicalSortWithTransitiveResolution dm = Some (Inr res)"
  shows "(cycles_res res = [] \<longrightarrow> fst ` set dm \<subseteq> set (sorted_res res)) \<and>
         (cycles_res res \<noteq> [] \<longrightarrow> (\<exists>k \<in> fst ` set dm. k \<notin> set (sorted_res res)))"
proof -
  obtain st where p: "process_nodes (depth_bound dm) dm (object_keys dm) initial_state = Some (Inr st)"
    and r: "res = \<lparr>sorted_res = rev (sorted_list st), cycles_res = cycles_list st\<rparr>"
    using assms
    by (auto simp: topologicalSortWithTransitiveResolution_def split: option.splits sum.splits)
  have "set (sorted_list initial_state) = visited initial_state"
    and "visited initial_state \<inter> visiting initial_state = {}"
    by (simp_all add: initial_state_def)
  from process_nodes_cycles[OF p this]
  have "set (sorted_list st) = visited st"
    and "cycles_list st = [] \<longrightarrow> set (object_keys dm) \<subseteq> visited st"
    and "cycles_list st \<noteq> [] \<longrightarrow> (\<exists>k \<in> set (object_keys dm). k \<notin> visited st)"
    by (simp_all add: initial_state_def)
  then show ?thesis using r by (simp add: set_object_keys)
qed

text \<open>
  Claim C3, as the code has it. The sorter ends for every dependency map, and it returns a
  result (instead of throwing) when every node that is no key of the map is no member of
  \<open>Object.prototype\<close>. A call of \<open>dfs\<close> on a node in progress records the current
  path as a cycle and returns \<open>true\<close>. A call that returns \<open>true\<close> has appended
  exactly one cycle, the path of the state it returns, and leaves its node in progress and not
  visited (\<open>sorted\<close> holds the visited nodes, before and after); a call that returns \<open>false\<close> reports nothing, restores path and nodes
  in progress and has visited its node. When the call for a neighbour \<open>y\<close> returns
  \<open>true\<close> after the neighbours \<open>xs\<close> before it returned \<open>false\<close>, the enclosing
  call returns \<open>true\<close> with the state of that call: the remaining neighbours \<open>zs\<close> are
  not looked at. At the top level, every key is in
  \<open>sorted\<close> when no cycle is reported, and some key is missing from \<open>sorted\<close> when a
  cycle is reported.
\<close>

theorem dfs_stops_at_first_cycle:
  "(\<exists>outcome. topologicalSortWithTransitiveResolution dependencyMap = Some outcome) \<and>
   ((\<forall>u \<in> set (graph_nodes dependencyMap).
        u \<in> fst ` set dependencyMap \<or> u \<notin> set prototype_names) \<longrightarrow>
    (\<exists>res. topologicalSortWithTransitiveResolution dependencyMap = Some (Inr res))) \<and>
   (v \<notin> visited s \<longrightarrow> v \<in> visiting s \<longrightarrow>
      dfs (Suc m) dependencyMap v s = Some (Inr (True, s\<lparr>cycles_list := cycles_list s @ [path s]\<rparr>))) \<and>
   (dfs m dependencyMap v s = Some (Inr (r, s')) \<longrightarrow>
      cycles_list s' = (if r then cycles_list s @ [path s'] else cycles_list s) \<and>
      (set (sorted_list s) = visited s \<longrightarrow> set (sorted_list s') = visited s') \<and>
      (r \<longrightarrow> v \<in> visiting s' \<and> v \<notin> visited s' \<and> (\<exists>p. path s' = path s @ p)) \<and>
      (\<not> r \<longrightarrow> v \<in> visited s' \<and> visiting s' = visiting s \<and> path s' = path s)) \<and>
   (node \<notin> visited st \<longrightarrow> node \<notin> visiting st \<longrightarrow>
    deps_of dependencyMap node = Inr (xs @ y # zs) \<longrightarrow>
    dfs_neighbors n dependencyMap xs
        (st\<lparr>visiting := insert node (visiting st), path := path st @ [node]\<rparr>) = Some (Inr (False, st1)) \<longrightarrow>
    dfs n dependencyMap y st1 = Some (Inr (True, st2)) \<longrightarrow>
      dfs (Suc n) dependencyMap node st = Some (Inr (True, st2))) \<and>
   (topologicalSortWithTransitiveResolution dependencyMap = Some (Inr result) \<longrightarrow>
      (cycles_res result = [] \<longrightarrow> fst ` set dependencyMap \<subseteq> set (sorted_res result)) \<and>
      (cycles_res result \<noteq> [] \<longrightarrow> (\<exists>k \<in> fst ` set dependencyMap. k \<notin> set (sorted_res result))))"
proof -
  have c1: "\<exists>outcome. topologicalSortWithTransitiveResolution dependencyMap = Some outcome"
    by (rule topologicalSort_ends)
  have c2: "(\<forall>u \<in> set (graph_nodes dependencyMap).
        u \<in> fst ` set dependencyMap \<or> u \<notin> set prototype_names) \<longrightarrow>
    (\<exists>res. topologicalSortWithTransitiveResolution dependencyMap = Some (Inr res))"
    using topologicalSort_returns[of dependencyMap] by blast
  have c3: "v \<notin> visited s \<longrightarrow> v \<in> visiting s \<longrightarrow>
      dfs (Suc m) dependencyMap v s = Some (Inr (True, s\<lparr>cycles_list := cycles_list s @ [path s]\<rparr>))"
    by simp
  have c4: "dfs m dependencyMap v s = Some (Inr (r, s')) \<longrightarrow>
      cycles_list s' = (if r then cycles_list s @ [path s'] else cycles_list s) \<and>
      (set (sorted_list s) = visited s \<longrightarrow> set (sorted_list s') = visited s') \<and>
      (r \<longrightarrow> v \<in> visiting s' \<and> v \<notin> visited s' \<and> (\<exists>p. path s' = path s @ p)) \<and>
      (\<not> r \<longrightarrow> v \<in> visited s' \<and> visiting s' = visiting s \<and> path s' = path s)"
  proof
    assume d: "dfs m dependencyMap v s = Some (Inr (r, s'))"
    from dfs_abort_aux(1)[of m dependencyMap v s] d
    have e: "dfs_effect s r s'"
      and k: "if r then v \<in> visiting s' \<and> v \<notin> visited s' else v \<in> visited s'" by blast+
    have "cycles_list s' = (if r then cycles_list s @ [path s'] else cycles_list s)"
      using e by (simp add: dfs_effect_def split: if_splits)
    moreover have "set (sorted_list s) = visited s \<longrightarrow> set (sorted_list s') = visited s'"
      using e by (simp add: dfs_effect_def)
    moreover have "r \<longrightarrow> v \<in> visiting s' \<and> v \<notin> visited s' \<and> (\<exists>p. path s' = path s @ p)"
      using e k by (simp add: dfs_effect_def)
    moreover have "\<not> r \<longrightarrow> v \<in> visited s' \<and> visiting s' = visiting s \<and> path s' = path s"
      using e k by (simp add: dfs_effect_def)
    ultimately show "cycles_list s' = (if r then cycles_list s @ [path s'] else cycles_list s) \<and>
      (set (sorted_list s) = visited s \<longrightarrow> set (sorted_list s') = visited s') \<and>
      (r \<longrightarrow> v \<in> visiting s' \<and> v \<notin> visited s' \<and> (\<exists>p. path s' = path s @ p)) \<and>
      (\<not> r \<longrightarrow> v \<in> visited s' \<and> visiting s' = visiting s \<and> path s' = path s)"
      by blast
  qed
  have c5: "node \<notin> visited st \<longrightarrow> node \<notin> visiting st \<longrightarrow>
    deps_of dependencyMap node = Inr (xs @ y # zs) \<longrightarrow>
    dfs_neighbors n dependencyMap xs
        (st\<lparr>visiting := insert node (visiting st), path := path st @ [node]\<rparr>) = Some (Inr (False, st1)) \<longrightarrow>
    dfs n dependencyMap y st1 = Some (Inr (True, st2)) \<longrightarrow>
      dfs (Suc n) dependencyMap node st = Some (Inr (True, st2))"
  proof (intro impI)
    assume nv: "node \<notin> visited st" and nvg: "node \<notin> visiting st"
      and ds: "deps_of dependencyMap node = Inr (xs @ y # zs)"
      and l: "dfs_neighbors n dependencyMap xs
                (st\<lparr>visiting := insert node (visiting st), path := path st @ [node]\<rparr>)
              = Some (Inr (False, st1))"
      and d: "dfs n dependencyMap y st1 = Some (Inr (True, st2))"
    from dfs_neighbors_abort[OF l d, of zs] nv nvg ds
    show "dfs (Suc n) dependencyMap node st = Some (Inr (True, st2))" by simp
  qed
  have c6: "topologicalSortWithTransitiveResolution dependencyMap = Some (Inr result) \<longrightarrow>
      (cycles_res result = [] \<longrightarrow> fst ` set dependencyMap \<subseteq> set (sorted_res result)) \<and>
      (cycles_res result \<noteq> [] \<longrightarrow> (\<exists>k \<in> fst ` set dependencyMap. k \<notin> set (sorted_res result)))"
    using topologicalSort_cycles[of dependencyMap result] by blast
  show ?thesis
    by (rule conjI, rule c1, rule conjI, rule c2, rule conjI, rule c3, rule conjI, rule c4,
        rule conjI, rule c5, rule c6)
qed

lemma ex_cyclic_run:
  "topologicalSortWithTransitiveResolution [(''A'', [''A'', ''B''])]
     = Some (Inr \<lparr>sorted_res = [], cycles_res = [[''A'']]\<rparr>)"
  by (simp add: sorter_examples)

text \<open>
  Claim C3 fails as stated: for the map \<open>{A: [A, B]}\<close> the traversal stops at the back
  edge from \<open>A\<close> to itself; the node \<open>B\<close> is never visited and appears neither in
  \<open>sorted\<close> nor in a reported cycle.
\<close>

theorem traversal_stops_counterexample:
  "topologicalSortWithTransitiveResolution [(''A'', [''A'', ''B''])]
     = Some (Inr \<lparr>sorted_res = [], cycles_res = [[''A'']]\<rparr>) \<and>
   ''B'' \<in> set (graph_nodes [(''A'', [''A'', ''B''])]) \<and>
   ''B'' \<notin> set ([] :: string list) \<union> \<Union> (set ` set [[''A'']])"
  by (simp add: ex_cyclic_run graph_nodes_def)

lemma ex_abort_map:
  "topologicalSortWithTransitiveResolution [(''A'', [''C'', ''A'', ''B''])]
     = Some (Inr \<lparr>sorted_res = [''C''], cycles_res = [[''A'']]\<rparr>)"
  by (simp add: sorter_examples)

theorem dfs_stops_at_first_cycle_witness:
  "dfs (Suc (Suc 0)) [(''A'', [''C'', ''A'', ''B''])] ''A'' initial_state
     = Some (Inr (True, \<lparr>sorted_list = [''C''], cycles_list = [[''A'']], visited = {''C''},
                           visiting = {''A''}, path = [''A'']\<rparr>)) \<and>
   topologicalSortWithTransitiveResolution [(''A'', [''C'', ''A'', ''B''])]
     = Some (Inr \<lparr>sorted_res = [''C''], cycles_res = [[''A'']]\<rparr>) \<and>
   ''A'' \<in> fst ` set [(''A'', [''C'', ''A'', ''B''])] \<and> ''A'' \<notin> set [''C'']"
proof -
  let ?dm = "[(''A'', [''C'', ''A'', ''B''])]"
  let ?st1 = "\<lparr>sorted_list = [''C''], cycles_list = [], visited = {''C''},
               visiting = {''A''}, path = [''A'']\<rparr>"
  let ?st2 = "\<lparr>sorted_list = [''C''], cycles_list = [[''A'']], visited = {''C''},
               visiting = {''A''}, path = [''A'']\<rparr>"
  have h1: "''A'' \<notin> visited initial_state" and h2: "''A'' \<notin> visiting initial_state"
    by (simp_all add: initial_state_def)
  have h3: "deps_of ?dm ''A'' = Inr ([''C''] @ ''A'' # [''B''])"
    by (simp add: deps_of_def)
  have h4: "dfs_neighbors (Suc 0) ?dm [''C'']
              (initial_state\<lparr>visiting := insert ''A'' (visiting initial_state),
                             path := path initial_state @ [''A'']\<rparr>) = Some (Inr (False, ?st1))"
    by (simp add: initial_state_def deps_of_def prototype_names_def)
  have h5: "''A'' \<notin> visited ?st1" and h6: "''A'' \<in> visiting ?st1" by simp_all
  have h7: "dfs (Suc 0) ?dm ''A'' ?st1 = Some (Inr (True, ?st2))" by simp
  note t = dfs_stops_at_first_cycle[where dependencyMap = ?dm and v = "''A''" and s = ?st1
      and m = "Suc 0" and r = True and s' = ?st2 and node = "''A''" and st = initial_state
      and xs = "[''C'']" and y = "''A''" and zs = "[''B'']" and n = "Suc 0" and ?st1.0 = ?st1
      and ?st2.0 = ?st2 and result = "\<lparr>sorted_res = [''C''], cycles_res = [[''A'']]\<rparr>"]
  have a: "dfs (Suc (Suc 0)) ?dm ''A'' initial_state = Some (Inr (True, ?st2))"
    using t h1 h2 h3 h4 h7 by blast
  have b: "\<exists>k \<in> fst ` set ?dm. k \<notin> set (sorted_res \<lparr>sorted_res = [''C''], cycles_res = [[''A'']]\<rparr>)"
    using t ex_abort_map by simp
  show ?thesis using a b ex_abort_map by simp
qed

subsection \<open>The comparator\<close>

lemma dependencyComparator_cases:
  "dependencyComparator lc srt a b =
     (if url a \<in> set srt \<and> url b \<in> set srt then indexOf srt (url b) - indexOf srt (url a)
      else if url a \<in> set srt then 1
      else if url b \<in> set srt then - 1
      else lc (url a) (url b))"
  by (simp add: dependencyComparator_def Let_def indexOf_in)

lemma indexOf_inj: "x \<in> set xs \<Longrightarrow> indexOf xs x = indexOf xs y \<Longrightarrow> x = y"
proof (induction xs)
  case Nil
  then show ?case by simp
next
  case (Cons z zs)
  have ge: "- 1 \<le> indexOf zs x" "- 1 \<le> indexOf zs y" by (rule indexOf_ge)+
  show ?case
  proof (cases "z = x")
    case True
    then show ?thesis using Cons.prems(2) ge by (auto simp: Let_def split: if_splits)
  next
    case False
    then have xin: "x \<in> set zs" using Cons.prems(1) by simp
    then have "- 1 < indexOf zs x" by (simp add: indexOf_in)
    then have "indexOf zs x = indexOf zs y"
      using Cons.prems(2) False ge by (auto simp: Let_def split: if_splits)
    then show ?thesis using Cons.IH xin by blast
  qed
qed

lemma dependencyComparator_consistent:
  assumes lc: "consistent_comparator lc"
  shows "consistent_comparator (dependencyComparator lc srt)"
proof -
  have anti: "\<And>x y. (lc x y < 0) = (lc y x > 0)"
    and trans: "\<And>x y z. lc x y \<le> 0 \<Longrightarrow> lc y z \<le> 0 \<Longrightarrow> lc x z \<le> 0"
    using lc unfolding consistent_comparator_def by blast+
  have a: "(dependencyComparator lc srt a b < 0) = (dependencyComparator lc srt b a > 0)" for a b
    using anti[of "url a" "url b"] by (simp add: dependencyComparator_cases)
  have t: "dependencyComparator lc srt a c \<le> 0"
    if "dependencyComparator lc srt a b \<le> 0" "dependencyComparator lc srt b c \<le> 0" for a b c
    using that trans[of "url a" "url b" "url c"]
    by (simp add: dependencyComparator_cases split: if_splits)
  show ?thesis unfolding consistent_comparator_def using a t by blast
qed

lemma sortResourceFilesByDependencies_ends:
  "\<exists>outcome. sortResourceFilesByDependencies localeCompare extractDeps resourceFiles = Some outcome"
proof (cases "buildDependencyMap extractDeps resourceFiles")
  case (Inl e)
  then show ?thesis by (simp add: sortResourceFilesByDependencies_def)
next
  case (Inr dm)
  obtain outcome where "topologicalSortWithTransitiveResolution dm = Some outcome"
    using topologicalSort_ends by blast
  then show ?thesis using Inr
    by (cases outcome) (simp_all add: sortResourceFilesByDependencies_def)
qed

lemma sortResourceFilesByDependencies_Inr:
  assumes "sortResourceFilesByDependencies localeCompare extractDeps resourceFiles = Some (Inr sortFn)"
  shows "\<exists>dm res. buildDependencyMap extractDeps resourceFiles = Inr dm \<and>
           topologicalSortWithTransitiveResolution dm = Some (Inr res) \<and>
           sortFn = dependencyComparator localeCompare (sorted_res res)"
  using assms
  by (auto simp: sortResourceFilesByDependencies_def split: sum.splits option.splits)

text \<open>
  A declared dependency named \<open>constructor\<close> that is the URL of no file: the sorter reads
  the inherited member and the loop over it throws.
\<close>

lemma inherited_member_throws:
  "sortResourceFilesByDependencies codePointCompare inherited_extract [stubResourceFile ''a'']
     = Some (Inl (TypeError ''(dependencyMap[node] || []) is not iterable''))"
  by (simp add: sortResourceFilesByDependencies_def buildDependencyMap_def addDependencies_def
      inherited_extract_def stubResourceFile_def unique_def uniqueBy_def Let_def sorter_examples)

text \<open>
  Claim C2, as the code has it. \<open>sortResourceFilesByDependencies\<close> ends for every input,
  and it returns a comparator when no URL and no declared dependency names a member of
  \<open>Object.prototype\<close>. Whenever it returns a comparator, that comparator closes over the
  list \<open>sorted\<close> that the sorter returned for the dependency map of the files. When both
  URLs are in \<open>sorted\<close>, the file with the higher index is ordered earlier; when only one
  URL is in \<open>sorted\<close>, the file whose URL is not in it is ordered earlier; when neither is,
  the result is that of \<open>localeCompare\<close> on the URLs; and the comparator is consistent (a
  total preorder) whenever \<open>localeCompare\<close> is.
\<close>

theorem dependencyComparator_order:
  assumes lc: "consistent_comparator localeCompare"
  shows "(\<exists>outcome. sortResourceFilesByDependencies localeCompare extractDeps resourceFiles
                      = Some outcome) \<and>
         ((\<forall>f \<in> set resourceFiles. url f \<notin> set prototype_names \<and>
              (\<forall>d \<in> set (extractDeps f). d \<notin> set prototype_names)) \<longrightarrow>
          (\<exists>sortFn. sortResourceFilesByDependencies localeCompare extractDeps resourceFiles
                       = Some (Inr sortFn))) \<and>
         (sortResourceFilesByDependencies localeCompare extractDeps resourceFiles = Some (Inr sortFn) \<longrightarrow>
          (\<exists>dm res. buildDependencyMap extractDeps resourceFiles = Inr dm \<and>
             topologicalSortWithTransitiveResolution dm = Some (Inr res) \<and>
             sortFn = dependencyComparator localeCompare (sorted_res res) \<and>
             (url a \<in> set (sorted_res res) \<longrightarrow> url b \<in> set (sorted_res res) \<longrightarrow>
                (sortFn a b < 0) = (indexOf (sorted_res res) (url b) < indexOf (sorted_res res) (url a))) \<and>
             (url a \<notin> set (sorted_res res) \<longrightarrow> url b \<in> set (sorted_res res) \<longrightarrow>
                sortFn a b < 0 \<and> sortFn b a > 0) \<and>
             (url a \<notin> set (sorted_res res) \<longrightarrow> url b \<notin> set (sorted_res res) \<longrightarrow>
                sortFn a b = localeCompare (url a) (url b)) \<and>
             consistent_comparator sortFn))"
proof -
  have c1: "\<exists>outcome. sortResourceFilesByDependencies localeCompare extractDeps resourceFiles
                      = Some outcome"
    by (rule sortResourceFilesByDependencies_ends)
  have c2: "(\<forall>f \<in> set resourceFiles. url f \<notin> set prototype_names \<and>
              (\<forall>d \<in> set (extractDeps f). d \<notin> set prototype_names)) \<longrightarrow>
          (\<exists>sortFn. sortResourceFilesByDependencies localeCompare extractDeps resourceFiles
                       = Some (Inr sortFn))"
    using sortResourceFilesByDependencies_returns[of resourceFiles extractDeps localeCompare]
    by blast
  have c3: "sortResourceFilesByDependencies localeCompare extractDeps resourceFiles = Some (Inr sortFn) \<longrightarrow>
          (\<exists>dm res. buildDependencyMap extractDeps resourceFiles = Inr dm \<and>
             topologicalSortWithTransitiveResolution dm = Some (Inr res) \<and>
             sortFn = dependencyComparator localeCompare (sorted_res res) \<and>
             (url a \<in> set (sorted_res res) \<longrightarrow> url b \<in> set (sorted_res res) \<longrightarrow>
                (sortFn a b < 0) = (indexOf (sorted_res res) (url b) < indexOf (sorted_res res) (url a))) \<and>
             (url a \<notin> set (sorted_res res) \<longrightarrow> url b \<in> set (sorted_res res) \<longrightarrow>
                sortFn a b < 0 \<and> sortFn b a > 0) \<and>
             (url a \<notin> set (sorted_res res) \<longrightarrow> url b \<notin> set (sorted_res res) \<longrightarrow>
                sortFn a b = localeCompare (url a) (url b)) \<and>
             consistent_comparator sortFn)"
  proof
    assume "sortResourceFilesByDependencies localeCompare extractDeps resourceFiles = Some (Inr sortFn)"
    from sortResourceFilesByDependencies_Inr[OF this]
    obtain dm res where dm: "buildDependencyMap extractDeps resourceFiles = Inr dm"
      and res: "topologicalSortWithTransitiveResolution dm = Some (Inr res)"
      and fn: "sortFn = dependencyComparator localeCompare (sorted_res res)"
      by blast
    have k: "consistent_comparator sortFn"
      unfolding fn using lc by (rule dependencyComparator_consistent)
    have "(url a \<in> set (sorted_res res) \<longrightarrow> url b \<in> set (sorted_res res) \<longrightarrow>
                (sortFn a b < 0) = (indexOf (sorted_res res) (url b) < indexOf (sorted_res res) (url a))) \<and>
             (url a \<notin> set (sorted_res res) \<longrightarrow> url b \<in> set (sorted_res res) \<longrightarrow>
                sortFn a b < 0 \<and> sortFn b a > 0) \<and>
             (url a \<notin> set (sorted_res res) \<longrightarrow> url b \<notin> set (sorted_res res) \<longrightarrow>
                sortFn a b = localeCompare (url a) (url b))"
      by (simp add: fn dependencyComparator_cases)
    then show "\<exists>dm res. buildDependencyMap extractDeps resourceFiles = Inr dm \<and>
             topologicalSortWithTransitiveResolution dm = Some (Inr res) \<and>
             sortFn = dependencyComparator localeCompare (sorted_res res) \<and>
             (url a \<in> set (sorted_res res) \<longrightarrow> url b \<in> set (sorted_res res) \<longrightarrow>
                (sortFn a b < 0) = (indexOf (sorted_res res) (url b) < indexOf (sorted_res res) (url a))) \<and>
             (url a \<notin> set (sorted_res res) \<longrightarrow> url b \<in> set (sorted_res res) \<longrightarrow>
                sortFn a b < 0 \<and> sortFn b a > 0) \<and>
             (url a \<notin> set (sorted_res res) \<longrightarrow> url b \<notin> set (sorted_res res) \<longrightarrow>
                sortFn a b = localeCompare (url a) (url b)) \<and>
             consistent_comparator sortFn"
      using dm res fn k by blast
  qed
  show ?thesis by (rule conjI, rule c1, rule conjI, rule c2, rule c3)
qed

lemma codePointCompare_consistent: "consistent_comparator codePointCompare"
  unfolding consistent_comparator_def codePointCompare_def by auto

lemma ex_comparator:
  "sortResourceFilesByDependencies codePointCompare ex_extract [stubResourceFile ''b'', stubResourceFile ''a'']
     = Some (Inr (dependencyComparator codePointCompare [''b'', ''a'']))"
  by (simp add: sortResourceFilesByDependencies_def ex_map ex_sorted)

text \<open>
  Claim C2 fails as stated: with \<open>b\<close> depending on \<open>a\<close> the list \<open>sorted\<close> is
  \<open>[b, a]\<close>; the file with the lower index, \<open>b\<close>, is ordered after \<open>a\<close>, and it
  is also ordered after a file whose URL is not in \<open>sorted\<close>.
\<close>

theorem comparator_direction_counterexample:
  "sortResourceFilesByDependencies codePointCompare ex_extract [stubResourceFile ''b'', stubResourceFile ''a'']
     = Some (Inr (dependencyComparator codePointCompare [''b'', ''a''])) \<and>
   indexOf [''b'', ''a''] (url (stubResourceFile ''b'')) < indexOf [''b'', ''a''] (url (stubResourceFile ''a'')) \<and>
   dependencyComparator codePointCompare [''b'', ''a''] (stubResourceFile ''b'') (stubResourceFile ''a'') = 1 \<and>
   url (stubResourceFile ''z'') \<notin> set [''b'', ''a''] \<and>
   dependencyComparator codePointCompare [''b'', ''a''] (stubResourceFile ''b'') (stubResourceFile ''z'') = 1"
  using ex_comparator by (simp add: dependencyComparator_def stubResourceFile_def)

theorem dependencyComparator_order_witness:
  "sortResourceFilesByDependencies codePointCompare ex_extract [stubResourceFile ''b'', stubResourceFile ''a'']
     = Some (Inr (dependencyComparator codePointCompare [''b'', ''a''])) \<and>
   dependencyComparator codePointCompare [''b'', ''a''] (stubResourceFile ''z'') (stubResourceFile ''a'') < 0 \<and>
   dependencyComparator codePointCompare [''b'', ''a''] (stubResourceFile ''a'') (stubResourceFile ''z'') > 0 \<and>
   consistent_comparator (dependencyComparator codePointCompare [''b'', ''a''])"
proof -
  let ?fs = "[stubResourceFile ''b'', stubResourceFile ''a'']"
  let ?fn = "dependencyComparator codePointCompare [''b'', ''a'']"
  have h: "consistent_comparator codePointCompare" by (rule codePointCompare_consistent)
  have m: "url (stubResourceFile ''z'') \<notin> set [''b'', ''a'']" "url (stubResourceFile ''a'') \<in> set [''b'', ''a'']"
    by (simp_all add: stubResourceFile_def)
  from dependencyComparator_order[OF h, of ex_extract ?fs ?fn "stubResourceFile ''z''" "stubResourceFile ''a''"]
    ex_comparator
  obtain dm res where d: "buildDependencyMap ex_extract ?fs = Inr dm"
    and r: "topologicalSortWithTransitiveResolution dm = Some (Inr res)"
    and c: "url (stubResourceFile ''z'') \<notin> set (sorted_res res) \<longrightarrow>
            url (stubResourceFile ''a'') \<in> set (sorted_res res) \<longrightarrow>
              ?fn (stubResourceFile ''z'') (stubResourceFile ''a'') < 0 \<and>
              ?fn (stubResourceFile ''a'') (stubResourceFile ''z'') > 0"
    and k: "consistent_comparator ?fn"
    by blast
  have "dm = [(''b'', [''a'']), (''a'', [])]" using d by (simp add: ex_map)
  then have "sorted_res res = [''b'', ''a'']" using r by (auto simp: ex_sorted)
  then show ?thesis using m c k ex_comparator by simp
qed

subsection \<open>Concept hierarchy: findConcept\<close>

lemma collectCodesUnder_unfold:
  "collectCodesUnder t = code t # forest_codes (descendants t)"
  by (cases t) (simp add: forest_codes_def)

lemma forest_codes_Cons [simp]:
  "forest_codes (t # ts) = collectCodesUnder t @ forest_codes ts"
  by (simp add: forest_codes_def)

lemma forest_codes_Nil [simp]: "forest_codes [] = []"
  by (simp add: forest_codes_def)

lemma forest_nodes_Cons [simp]:
  "forest_nodes (t # ts) = tree_nodes t \<union> forest_nodes ts"
  by (simp add: forest_nodes_def)

lemma forest_nodes_Nil [simp]: "forest_nodes [] = {}"
  by (simp add: forest_nodes_def)

lemma root_in_tree_nodes: "t \<in> tree_nodes t"
  by (cases t) simp

lemma member_forest_nodes: "r \<in> set cs \<Longrightarrow> r \<in> forest_nodes cs"
  using root_in_tree_nodes by (auto simp: forest_nodes_def)

lemma codes_are_node_codes:
  "set (collectCodesUnder t) = code ` tree_nodes t"
proof (induction t)
  case (Concept k ps ds)
  then have "(\<Union>d \<in> set ds. set (collectCodesUnder d)) = (\<Union>d \<in> set ds. code ` tree_nodes d)"
    by simp
  then show ?case by auto
qed

lemma forest_codes_are_node_codes:
  "set (forest_codes cs) = code ` forest_nodes cs"
  by (induction cs) (auto simp: codes_are_node_codes)

lemma findCodeIn_sound:
  "\<forall>r. findCodeIn c t = Some r \<longrightarrow> r \<in> tree_nodes t \<and> code r = c"
  "\<forall>r. findCodeIn_children c ds = Some r \<longrightarrow> r \<in> forest_nodes ds \<and> code r = c"
proof (induction c t and c ds rule: findCodeIn_findCodeIn_children.induct)
  case (1 c k ps ds)
  then show ?case by (auto simp: forest_nodes_def)
next
  case (2 c)
  then show ?case by simp
next
  case (3 c child rest)
  show ?case
  proof (intro allI impI)
    fix r assume res: "findCodeIn_children c (child # rest) = Some r"
    show "r \<in> forest_nodes (child # rest) \<and> code r = c"
    proof (cases "code child = c")
      case True
      then have "r = child" using res by simp
      then show ?thesis using True by (simp add: root_in_tree_nodes)
    next
      case False
      show ?thesis
      proof (cases "findCodeIn c child")
        case None
        then have "findCodeIn_children c rest = Some r" using res False by simp
        then show ?thesis using "3.IH"(2)[OF False None] by simp
      next
        case (Some r')
        then have "r = r'" using res False by simp
        then show ?thesis using "3.IH"(1)[OF False] Some by simp
      qed
    qed
  qed
qed

lemma findCodeIn_complete:
  "c \<in> set (collectCodesUnder t) \<longrightarrow> findCodeIn c t \<noteq> None"
  "c \<in> set (forest_codes ds) \<longrightarrow> findCodeIn_children c ds \<noteq> None"
proof (induction c t and c ds rule: findCodeIn_findCodeIn_children.induct)
  case (1 c k ps ds)
  then show ?case by (auto simp: forest_codes_def)
next
  case (2 c)
  then show ?case by simp
next
  case (3 c child rest)
  show ?case
  proof
    assume in_codes: "c \<in> set (forest_codes (child # rest))"
    show "findCodeIn_children c (child # rest) \<noteq> None"
    proof (cases "code child = c")
      case True
      then show ?thesis by simp
    next
      case False
      show ?thesis
      proof (cases "findCodeIn c child")
        case None
        then have "c \<notin> set (collectCodesUnder child)" using "3.IH"(1)[OF False] by blast
        then have "c \<in> set (forest_codes rest)" using in_codes by simp
        then show ?thesis using "3.IH"(2)[OF False None] False None by simp
      next
        case (Some r')
        then show ?thesis using False by simp
      qed
    qed
  qed
qed

lemma findCodeAmong_sound:
  "findCodeAmong c cs = Some r \<Longrightarrow> r \<in> forest_nodes cs \<and> code r = c"
proof (induction cs)
  case Nil
  then show ?case by simp
next
  case (Cons t ts)
  show ?case
  proof (cases "findCodeIn c t")
    case None
    then show ?thesis using Cons by simp
  next
    case (Some r')
    then have "r = r'" using Cons.prems by simp
    then show ?thesis using findCodeIn_sound(1)[of c t] Some by simp
  qed
qed

lemma findCodeAmong_complete:
  "c \<in> set (forest_codes cs) \<Longrightarrow> findCodeAmong c cs \<noteq> None"
proof (induction cs)
  case Nil
  then show ?case by simp
next
  case (Cons t ts)
  show ?case
  proof (cases "findCodeIn c t")
    case None
    then have "c \<notin> set (collectCodesUnder t)" using findCodeIn_complete(1)[of c t] by blast
    then have "c \<in> set (forest_codes ts)" using Cons.prems by simp
    then show ?thesis using Cons.IH None by simp
  next
    case (Some r')
    then show ?thesis by simp
  qed
qed

lemma distinct_subtree:
  "r \<in> tree_nodes t \<Longrightarrow> distinct (collectCodesUnder t) \<Longrightarrow> distinct (collectCodesUnder r)"
proof (induction t)
  case (Concept k ps ds)
  show ?case
  proof (cases "r = Concept k ps ds")
    case True
    then show ?thesis using Concept.prems(2) by simp
  next
    case False
    then obtain d where d: "d \<in> set ds" and r: "r \<in> tree_nodes d"
      using Concept.prems(1) by auto
    have "distinct (concat (map collectCodesUnder ds))" using Concept.prems(2) by simp
    then have "distinct (collectCodesUnder d)" using d by (auto simp: distinct_concat_iff)
    then show ?thesis using Concept.IH[OF d r] by simp
  qed
qed

lemma distinct_forest_tree:
  "r \<in> forest_nodes cs \<Longrightarrow> distinct (forest_codes cs) \<Longrightarrow> distinct (collectCodesUnder r)"
proof (induction cs)
  case Nil
  then show ?case by simp
next
  case (Cons t ts)
  then show ?case using distinct_subtree[of r t] by auto
qed

subsection \<open>Concept hierarchy: descendants and ancestors\<close>

lemma path_to_code_in_forest:
  "path_to cs c p \<Longrightarrow> c \<in> set (forest_codes cs)"
proof (induction rule: path_to.induct)
  case (here r cs c)
  then have "r \<in> forest_nodes cs" by (simp add: member_forest_nodes)
  then show ?case using here by (auto simp: forest_codes_are_node_codes)
next
  case (below r cs c p)
  then have "c \<in> set (collectCodesUnder r)" by (simp add: collectCodesUnder_unfold)
  then show ?case using below.hyps(1) by (auto simp: forest_codes_def)
qed

lemma codes_in_forest_member:
  "r \<in> set cs \<Longrightarrow> set (collectCodesUnder r) \<subseteq> set (forest_codes cs)"
  by (auto simp: forest_codes_def)

lemma collectPathBetween_correct:
  "(\<forall>p. distinct (collectCodesUnder t) \<longrightarrow> path_to (descendants t) c p \<longrightarrow>
        collectPathBetween t c = code t # p) \<and>
   (c \<notin> set (forest_codes (descendants t)) \<longrightarrow> collectPathBetween t c = [])"
  "(\<forall>p. distinct (forest_codes ds) \<longrightarrow> path_to ds c p \<longrightarrow>
        collectPathBetween_children rc ds c = rc # p) \<and>
   (c \<notin> set (forest_codes ds) \<longrightarrow> collectPathBetween_children rc ds c = [])"
proof (induction t c and rc ds c rule: collectPathBetween_collectPathBetween_children.induct)
  case (1 k ps ds c)
  then show ?case by (simp add: forest_codes_def)
next
  case (2 rootCode c)
  show ?case
  proof (intro conjI allI impI)
    fix p assume "path_to [] c p"
    then show "collectPathBetween_children rootCode [] c = rootCode # p"
      by (cases rule: path_to.cases) simp_all
  qed simp
next
  case (3 rootCode child rest c)
  have below_child: "collectCodesUnder child = code child # forest_codes (descendants child)"
    by (rule collectCodesUnder_unfold)
  have none_child: "collectPathBetween child c = []"
    if "c \<notin> set (collectCodesUnder child)"
  proof -
    have ne: "code child \<noteq> c" and nb: "c \<notin> set (forest_codes (descendants child))"
      using that below_child by auto
    from "3.IH"(1)[OF ne] nb show ?thesis by blast
  qed
  show ?case
  proof (intro conjI allI impI)
    assume notin: "c \<notin> set (forest_codes (child # rest))"
    then have nc: "c \<notin> set (collectCodesUnder child)" and nr: "c \<notin> set (forest_codes rest)"
      by simp_all
    have ne: "code child \<noteq> c" using nc below_child by auto
    have e: "collectPathBetween child c = []" using none_child[OF nc] .
    have "collectPathBetween_children rootCode rest c = []"
      using "3.IH"(2)[OF ne refl] e nr by simp
    then show "collectPathBetween_children rootCode (child # rest) c = []"
      using ne e by simp
  next
    fix p
    assume dist: "distinct (forest_codes (child # rest))"
      and pt: "path_to (child # rest) c p"
    have dc: "distinct (collectCodesUnder child)" and dr: "distinct (forest_codes rest)"
      and disj: "set (collectCodesUnder child) \<inter> set (forest_codes rest) = {}"
      using dist by auto
    from pt show "collectPathBetween_children rootCode (child # rest) c = rootCode # p"
    proof (cases rule: path_to.cases)
      case (here r)
      show ?thesis
      proof (cases "code child = c")
        case True
        then show ?thesis using here by simp
      next
        case False
        then have rin: "r \<in> set rest" using here by auto
        have "c \<in> set (collectCodesUnder r)" using here by (auto simp: collectCodesUnder_unfold)
        then have "c \<in> set (forest_codes rest)" using codes_in_forest_member[OF rin] by blast
        then have nc: "c \<notin> set (collectCodesUnder child)" using disj by blast
        have e: "collectPathBetween child c = []" using none_child[OF nc] .
        have "path_to rest c []" using rin here by (auto intro: path_to.here)
        then have "collectPathBetween_children rootCode rest c = rootCode # []"
          using "3.IH"(2)[OF False refl] e dr by simp
        then show ?thesis using False e here by simp
      qed
    next
      case (below r p')
      have cin: "c \<in> set (forest_codes (descendants r))"
        using path_to_code_in_forest[OF below(3)] .
      show ?thesis
      proof (cases "r = child")
        case True
        have ne: "code child \<noteq> c" using dc cin True below_child by auto
        have "collectPathBetween child c = code child # p'"
          using "3.IH"(1)[OF ne] dc below(3) True by blast
        then show ?thesis using ne below True by simp
      next
        case False
        then have rin: "r \<in> set rest" using below by auto
        have "c \<in> set (collectCodesUnder r)" using cin by (simp add: collectCodesUnder_unfold)
        then have "c \<in> set (forest_codes rest)" using codes_in_forest_member[OF rin] by blast
        then have nc: "c \<notin> set (collectCodesUnder child)" using disj by blast
        have ne: "code child \<noteq> c" using nc below_child by auto
        have e: "collectPathBetween child c = []" using none_child[OF nc] .
        have "path_to rest c (code r # p')" using rin below(3) by (rule path_to.below)
        then have "collectPathBetween_children rootCode rest c = rootCode # code r # p'"
          using "3.IH"(2)[OF ne refl] e dr by simp
        then show ?thesis using ne e below by simp
      qed
    qed
  qed
qed

lemma ancestors_among_none:
  "c \<notin> set (forest_codes cs) \<Longrightarrow> ancestors_among cs c = []"
proof (induction cs)
  case Nil
  then show ?case by simp
next
  case (Cons t ts)
  have "c \<notin> set (forest_codes (descendants t))" using Cons.prems
    by (simp add: collectCodesUnder_unfold)
  then have "collectPathBetween t c = []" using collectPathBetween_correct(1)[of t c] by blast
  then show ?case using Cons by (simp add: Let_def)
qed

lemma ancestors_among_path:
  "distinct (forest_codes cs) \<Longrightarrow> path_to cs c p \<Longrightarrow> ancestors_among cs c = p"
proof (induction cs arbitrary: p)
  case Nil
  from Nil.prems(2) show ?case by (cases rule: path_to.cases) simp_all
next
  case (Cons t ts)
  have dt: "distinct (collectCodesUnder t)" and dts: "distinct (forest_codes ts)"
    and disj: "set (collectCodesUnder t) \<inter> set (forest_codes ts) = {}"
    using Cons.prems(1) by auto
  have none_t: "collectPathBetween t c = []" if "c \<notin> set (collectCodesUnder t)"
  proof -
    have "c \<notin> set (forest_codes (descendants t))" using that by (simp add: collectCodesUnder_unfold)
    then show ?thesis using collectPathBetween_correct(1)[of t c] by blast
  qed
  from Cons.prems(2) show ?case
  proof (cases rule: path_to.cases)
    case (here r)
    show ?thesis
    proof (cases "code t = c")
      case True
      then show ?thesis using here by simp
    next
      case False
      then have rin: "r \<in> set ts" using here by auto
      have "c \<in> set (collectCodesUnder r)" using here by (auto simp: collectCodesUnder_unfold)
      then have "c \<in> set (forest_codes ts)" using codes_in_forest_member[OF rin] by blast
      then have "c \<notin> set (collectCodesUnder t)" using disj by blast
      then have e: "collectPathBetween t c = []" by (rule none_t)
      have "path_to ts c []" using rin here by (auto intro: path_to.here)
      then have "ancestors_among ts c = []" using Cons.IH[OF dts] by blast
      then show ?thesis using False e here by (simp add: Let_def)
    qed
  next
    case (below r p')
    have cin: "c \<in> set (forest_codes (descendants r))"
      using path_to_code_in_forest[OF below(3)] .
    show ?thesis
    proof (cases "r = t")
      case True
      have ne: "code t \<noteq> c" using dt cin True by (auto simp: collectCodesUnder_unfold[of t])
      have "collectPathBetween t c = code t # p'"
        using collectPathBetween_correct(1)[of t c] dt below(3) True by blast
      then show ?thesis using ne below True by (simp add: Let_def)
    next
      case False
      then have rin: "r \<in> set ts" using below by auto
      have "c \<in> set (collectCodesUnder r)" using cin by (simp add: collectCodesUnder_unfold)
      then have "c \<in> set (forest_codes ts)" using codes_in_forest_member[OF rin] by blast
      then have nc: "c \<notin> set (collectCodesUnder t)" using disj by blast
      have ne: "code t \<noteq> c" using nc by (auto simp: collectCodesUnder_unfold[of t])
      have e: "collectPathBetween t c = []" using none_t[OF nc] .
      have "path_to ts c (code r # p')" using rin below(3) by (rule path_to.below)
      then have "ancestors_among ts c = code r # p'" using Cons.IH[OF dts] by blast
      then show ?thesis using ne e below by (simp add: Let_def)
    qed
  qed
qed

text \<open>
  Claim C6. In a hierarchy without duplicate codes: \<open>findConcept\<close> returns a concept
  iff a concept with that code exists anywhere in the forest, and the concept it returns
  is a concept of the forest with that code; \<open>hierarchicalDescendantsOf\<close> returns exactly
  the codes of the subtree rooted at that concept without the code itself, and the empty
  list when the code is not found; \<open>hierarchicalAncestorsOf\<close> returns the codes on the
  path from a root down to the parent of the concept, root first (the empty path for a
  root), and the empty list when the code is not found.
\<close>

theorem hierarchy_queries:
  assumes "distinct (forest_codes (concepts h))"
  shows "((\<exists>r. findConcept h c = Some r) \<longleftrightarrow> (\<exists>r \<in> forest_nodes (concepts h). code r = c)) \<and>
         (findConcept h c = Some r \<longrightarrow>
            r \<in> forest_nodes (concepts h) \<and> code r = c \<and>
            set (hierarchicalDescendantsOf h c) = code ` tree_nodes r - {c}) \<and>
         (findConcept h c = None \<longrightarrow>
            hierarchicalDescendantsOf h c = [] \<and> hierarchicalAncestorsOf h c = []) \<and>
         (path_to (concepts h) c p \<longrightarrow> hierarchicalAncestorsOf h c = p)"
proof (intro conjI impI)
  show "(\<exists>r. findConcept h c = Some r) \<longleftrightarrow> (\<exists>r \<in> forest_nodes (concepts h). code r = c)"
  proof
    assume "\<exists>r. findConcept h c = Some r"
    then show "\<exists>r \<in> forest_nodes (concepts h). code r = c"
      using findCodeAmong_sound by (auto simp: findConcept_def)
  next
    assume "\<exists>r \<in> forest_nodes (concepts h). code r = c"
    then have "c \<in> set (forest_codes (concepts h))"
      by (auto simp: forest_codes_are_node_codes)
    then show "\<exists>r. findConcept h c = Some r"
      using findCodeAmong_complete[of c "concepts h"] by (auto simp: findConcept_def)
  qed
next
  assume f: "findConcept h c = Some r"
  then have s: "r \<in> forest_nodes (concepts h) \<and> code r = c"
    using findCodeAmong_sound by (simp add: findConcept_def)
  then show "r \<in> forest_nodes (concepts h)" and "code r = c" by simp_all
  have "distinct (collectCodesUnder r)" using distinct_forest_tree s assms by blast
  then have "c \<notin> set (forest_codes (descendants r))" using s
    by (auto simp: collectCodesUnder_unfold[of r])
  moreover have "set (collectCodesUnder r) = insert c (set (forest_codes (descendants r)))"
    using s by (auto simp: collectCodesUnder_unfold[of r])
  moreover have "hierarchicalDescendantsOf h c = forest_codes (descendants r)"
    using f by (simp add: hierarchicalDescendantsOf_def forest_codes_def)
  ultimately show "set (hierarchicalDescendantsOf h c) = code ` tree_nodes r - {c}"
    using codes_are_node_codes[of r] by auto
next
  assume "findConcept h c = None"
  then show "hierarchicalDescendantsOf h c = []" "hierarchicalAncestorsOf h c = []"
    by (simp_all add: hierarchicalDescendantsOf_def hierarchicalAncestorsOf_def)
next
  assume pt: "path_to (concepts h) c p"
  then have "c \<in> set (forest_codes (concepts h))" by (rule path_to_code_in_forest)
  then obtain r where "findConcept h c = Some r"
    using findCodeAmong_complete[of c "concepts h"] by (auto simp: findConcept_def)
  then show "hierarchicalAncestorsOf h c = p"
    using ancestors_among_path[OF assms pt] by (simp add: hierarchicalAncestorsOf_def)
qed

subsection \<open>Concept hierarchy: the fixture\<close>

lemmas example_concepts =
  resources_hierarchy_def machine_concept_def human_concept_def adult_concept_def
  child_concept_def boy_concept_def girl_concept_def gendered_def

lemma ex_path_to_boy: "path_to (concepts resources_hierarchy) ''boy'' [''human'', ''child'']"
proof -
  have "path_to [boy_concept, girl_concept] ''boy'' []"
    by (rule path_to.here[of boy_concept]) (simp_all add: boy_concept_def gendered_def)
  then have "path_to (descendants child_concept) ''boy'' []"
    by (simp add: child_concept_def gendered_def)
  then have "path_to [adult_concept, child_concept] ''boy'' (code child_concept # [])"
    by (intro path_to.below) simp_all
  then have "path_to (descendants human_concept) ''boy'' [''child'']"
    by (simp add: human_concept_def child_concept_def gendered_def)
  then have "path_to [machine_concept, human_concept] ''boy'' (code human_concept # [''child''])"
    by (intro path_to.below) simp_all
  then show ?thesis by (simp add: resources_hierarchy_def human_concept_def gendered_def)
qed

theorem hierarchy_queries_witness:
  "distinct (forest_codes (concepts resources_hierarchy)) \<and>
   findConcept resources_hierarchy ''child'' = Some child_concept \<and>
   child_concept \<in> forest_nodes (concepts resources_hierarchy) \<and>
   set (hierarchicalDescendantsOf resources_hierarchy ''child'') = code ` tree_nodes child_concept - {''child''} \<and>
   hierarchicalDescendantsOf resources_hierarchy ''child'' = [''boy'', ''girl''] \<and>
   findConcept resources_hierarchy ''alien'' = None \<and>
   hierarchicalDescendantsOf resources_hierarchy ''alien'' = [] \<and>
   hierarchicalAncestorsOf resources_hierarchy ''alien'' = [] \<and>
   path_to (concepts resources_hierarchy) ''boy'' [''human'', ''child''] \<and>
   hierarchicalAncestorsOf resources_hierarchy ''boy'' = [''human'', ''child'']"
proof -
  have d: "distinct (forest_codes (concepts resources_hierarchy))"
    by (simp add: example_concepts)
  have f: "findConcept resources_hierarchy ''child'' = Some child_concept"
    by (simp add: findConcept_def example_concepts)
  have n: "findConcept resources_hierarchy ''alien'' = None"
    by (simp add: findConcept_def example_concepts)
  have l: "hierarchicalDescendantsOf resources_hierarchy ''child'' = [''boy'', ''girl'']"
    by (simp add: hierarchicalDescendantsOf_def f) (simp add: example_concepts)
  from hierarchy_queries[OF d, of "''child''" child_concept] f
  have a: "child_concept \<in> forest_nodes (concepts resources_hierarchy)"
    and b: "set (hierarchicalDescendantsOf resources_hierarchy ''child'') = code ` tree_nodes child_concept - {''child''}"
    by simp_all
  from hierarchy_queries[OF d, of "''alien''"] n
  have c: "hierarchicalDescendantsOf resources_hierarchy ''alien'' = []"
    "hierarchicalAncestorsOf resources_hierarchy ''alien'' = []" by simp_all
  from hierarchy_queries[OF d, of "''boy''" _ "[''human'', ''child'']"] ex_path_to_boy
  have e: "hierarchicalAncestorsOf resources_hierarchy ''boy'' = [''human'', ''child'']" by simp
  show ?thesis using d f n l a b c e ex_path_to_boy by simp
qed

subsection \<open>ValueSets: includes and excludes\<close>

lemma success_z_and: "success (z_and a b) v \<longleftrightarrow> success a v \<and> success b v"
  by (simp add: success_def z_and_def)

lemma success_z_or: "success (z_or a b) v \<longleftrightarrow> success a v \<or> success b v"
  by (simp add: success_def z_or_def)

lemma success_z_never: "\<not> success z_never v"
  by (simp add: success_def z_never_def)

lemma success_z_superRefine: "success (z_superRefine s r) v \<longleftrightarrow> success s v \<and> r v = []"
  by (auto simp: success_def z_superRefine_def)

lemma success_foldl_and:
  "success (foldl (\<lambda>acc sch. z_and acc sch) s rest) v \<longleftrightarrow> success s v \<and> (\<forall>x \<in> set rest. success x v)"
  by (induction rest arbitrary: s) (auto simp: success_z_and)

lemma success_foldl_or:
  "success (foldl (\<lambda>acc sch. z_or acc sch) s rest) v \<longleftrightarrow> success s v \<or> (\<exists>x \<in> set rest. success x v)"
  by (induction rest arbitrary: s) (auto simp: success_z_or)

lemma success_andSchemas:
  "success (andSchemas schemas) v \<longleftrightarrow> schemas \<noteq> [] \<and> (\<forall>s \<in> set schemas. success s v)"
proof (cases schemas)
  case Nil
  then show ?thesis by (simp add: andSchemas_def success_z_never)
next
  case (Cons s rest)
  then show ?thesis by (cases rest) (auto simp: andSchemas_def success_foldl_and success_z_and)
qed

lemma success_orSchemas:
  "success (orSchemas schemas) v \<longleftrightarrow> (\<exists>s \<in> set schemas. success s v)"
proof (cases schemas)
  case Nil
  then show ?thesis by (simp add: orSchemas_def success_z_never)
next
  case (Cons s rest)
  then show ?thesis by (cases rest) (auto simp: orSchemas_def success_foldl_or success_z_or)
qed

lemma processValueSet_accepts:
  assumes "resourceType file = ''ValueSet''"
    and "collectSchemas cr (includes_of vs) rs rr (z_string_min 1) = Inr incs"
    and "collectSchemas cr (excludes_of vs) rs rr z_never = Inr excs"
  shows "\<exists>s. processValueSet cr file vs rs rr
              = Inr (s, if incs = [] then [''Could not contribute any schemas for ValueSet '' @ vs_url vs] else []) \<and>
             (\<forall>v. success s v \<longleftrightarrow>
                (\<exists>i \<in> set incs. success i v) \<and> \<not> (excs \<noteq> [] \<and> (\<forall>e \<in> set excs. success e v)))"
proof -
  let ?s = "z_superRefine (orSchemas incs) (excluded_refinement (andSchemas excs) vs)"
  have "processValueSet cr file vs rs rr
      = Inr (?s, if incs = [] then [''Could not contribute any schemas for ValueSet '' @ vs_url vs] else [])"
    using assms
    by (simp add: processValueSet_def generateSchemaForIncludes_def generateSchemaForExcludes_def
        includes_of_def excludes_of_def)
  moreover have "success ?s v \<longleftrightarrow>
      (\<exists>i \<in> set incs. success i v) \<and> \<not> (excs \<noteq> [] \<and> (\<forall>e \<in> set excs. success e v))" for v
    by (simp add: success_z_superRefine success_orSchemas excluded_refinement_def success_andSchemas)
  ultimately show ?thesis by blast
qed

lemma mid_length_greek_schemas:
  "collectSchemas no_regexp [system_include ''GreekAlphabet''] greek_schemas no_hierarchy (z_string_min 1)
     = Inr [z_enum [''alpha'', ''beta'', ''pi'', ''rho'', ''lambda'', ''epsilon'', ''omicron'']]"
  "collectSchemas no_regexp [system_include ''ShortGreekAlphabet'', system_include ''LongGreekAlphabet'']
       greek_schemas no_hierarchy z_never
     = Inr [z_enum [''pi'', ''rho''], z_enum [''epsilon'', ''omicron'']]"
  by (simp_all add: system_include_def isValueSetInclude_def createIncludeSchemasForSystem_def
      greek_schemas_def Let_def)

text \<open>
  Claim C4 at the input of the repository's test "does not contain concepts that were
  excluded": a ValueSet that includes the Greek alphabet and excludes the short and the
  long letters. The compiled validator accepts \<open>pi\<close>, although \<open>pi\<close> passes the first
  exclude schema: the exclude schemas are combined with \<open>andSchemas\<close>, so a value is
  rejected only when it passes all of them.
\<close>

theorem excluded_code_is_accepted:
  "(case processValueSet no_regexp (stubResourceFile ''mid-length-greek-alphabet'') mid_length_greek
           greek_schemas no_hierarchy of
      Inl e \<Rightarrow> False
    | Inr (s, warnings) \<Rightarrow>
        success (z_enum [''pi'', ''rho'']) (JString ''pi'') \<and> success s (JString ''pi'') \<and>
        \<not> success s (JString ''omega''))"
proof -
  have rt: "resourceType (stubResourceFile ''mid-length-greek-alphabet'') = ''ValueSet''"
    by (simp add: stubResourceFile_def)
  have i: "includes_of mid_length_greek = [system_include ''GreekAlphabet'']"
    and e: "excludes_of mid_length_greek
            = [system_include ''ShortGreekAlphabet'', system_include ''LongGreekAlphabet'']"
    by (simp_all add: includes_of_def excludes_of_def mid_length_greek_def)
  have c1: "collectSchemas no_regexp (includes_of mid_length_greek) greek_schemas no_hierarchy (z_string_min 1)
     = Inr [z_enum [''alpha'', ''beta'', ''pi'', ''rho'', ''lambda'', ''epsilon'', ''omicron'']]"
    using mid_length_greek_schemas(1) i by simp
  have c2: "collectSchemas no_regexp (excludes_of mid_length_greek) greek_schemas no_hierarchy z_never
     = Inr [z_enum [''pi'', ''rho''], z_enum [''epsilon'', ''omicron'']]"
    using mid_length_greek_schemas(2) e by simp
  from processValueSet_accepts[OF rt c1 c2]
  obtain s w where p: "processValueSet no_regexp (stubResourceFile ''mid-length-greek-alphabet'')
        mid_length_greek greek_schemas no_hierarchy = Inr (s, w)"
    and acc: "\<forall>v. success s v \<longleftrightarrow>
        (\<exists>i \<in> set [z_enum [''alpha'', ''beta'', ''pi'', ''rho'', ''lambda'', ''epsilon'', ''omicron'']]. success i v) \<and>
        \<not> ([z_enum [''pi'', ''rho''], z_enum [''epsilon'', ''omicron'']] \<noteq> [] \<and>
           (\<forall>e \<in> set [z_enum [''pi'', ''rho''], z_enum [''epsilon'', ''omicron'']]. success e v))"
    by blast
  have a1: "success s (JString ''pi'')" and a2: "\<not> success s (JString ''omega'')"
    unfolding acc[rule_format] by (simp_all add: success_def z_enum_def)
  have a3: "success (z_enum [''pi'', ''rho'']) (JString ''pi'')"
    by (simp add: success_def z_enum_def)
  show ?thesis using p a1 a2 a3 by simp
qed

subsection \<open>ValueSets: the is-a filter\<close>

lemma success_must_be_among:
  "success (z_superRefine z_string (must_be_among allowed msg)) v \<longleftrightarrow>
     (\<exists>x. v = JString x \<and> x \<in> set allowed)"
  by (cases v) (auto simp: success_def z_superRefine_def z_string_def must_be_among_def)

lemma success_property_refinement:
  "success (z_superRefine z_string (property_refinement h f)) v \<longleftrightarrow>
     (\<exists>x c p. v = JString x \<and> findConcept h x = Some c \<and>
              properties c (fproperty f) = Some p \<and> pvalue p = PString (fvalue f))"
  by (cases v)
     (auto simp: success_def z_superRefine_def z_string_def property_refinement_def
           split: option.splits)

lemma success_z_any: "success z_any v"
  by (simp add: success_def z_any_def)

text \<open>
  Claim C5, as the code has it. For a filter with operator \<open>is-a\<close>, \<open>createFilterSchema\<close>
  returns a schema. On the property \<open>code\<close> it accepts, with a hierarchy, exactly the
  strings that equal the filter value or are among its descendants, and without one
  exactly the filter value. On any other property it accepts, with a hierarchy, exactly
  the codes of concepts whose value for that property equals the filter value, and
  without one every value.
\<close>

theorem is_a_filter_semantics:
  assumes "fop f = ''is-a''"
  shows "\<exists>s. createFilterSchema compileRegExp codeSystemUrl f resolveResource = Inr s \<and>
           (fproperty f = ''code'' \<longrightarrow>
              (case resolveResource codeSystemUrl of
                 Some h \<Rightarrow>
                   success s v \<longleftrightarrow>
                     (\<exists>x. v = JString x \<and>
                          (x = fvalue f \<or> x \<in> set (hierarchicalDescendantsOf h (fvalue f))))
               | None \<Rightarrow> success s v \<longleftrightarrow> v = JString (fvalue f))) \<and>
           (fproperty f \<noteq> ''code'' \<longrightarrow>
              (case resolveResource codeSystemUrl of
                 Some h \<Rightarrow>
                   success s v \<longleftrightarrow>
                     (\<exists>x c p. v = JString x \<and> findConcept h x = Some c \<and>
                              properties c (fproperty f) = Some p \<and> pvalue p = PString (fvalue f))
               | None \<Rightarrow> success s v))"
proof (cases "resolveResource codeSystemUrl")
  case None
  then show ?thesis using assms
    by (auto simp: createFilterSchema_def filter_value_schema_def success_must_be_among
        success_z_any)
next
  case (Some h)
  then show ?thesis using assms
    by (auto simp: createFilterSchema_def filter_value_schema_def success_must_be_among
        success_property_refinement)
qed

lemma toy_facts:
  "findConcept toys_hierarchy ''toy''
     = Some (Concept ''toy'' [''owner'' \<mapsto> \<lparr>ptype = ''string'', pvalue = PString ''boy''\<rparr>] [])"
  "hierarchicalDescendantsOf toys_hierarchy ''child'' = [''boy'', ''girl'']"
  by (simp_all add: hierarchicalDescendantsOf_def findConcept_def toys_hierarchy_def
      child_concept_def boy_concept_def girl_concept_def gendered_def)

text \<open>
  Claim C5 fails as stated: the concept \<open>toy\<close> has the property \<open>owner\<close> with value
  \<open>boy\<close>, a descendant of \<open>child\<close>, yet the filter \<open>owner is-a child\<close> rejects
  \<open>toy\<close>; and without a hierarchy the same filter accepts every value.
\<close>

theorem property_is_a_counterexample:
  "(case createFilterSchema no_regexp ''toys'' owner_is_a_child toys_resources of
      Inl e \<Rightarrow> False
    | Inr s \<Rightarrow> \<not> success s (JString ''toy'')) \<and>
   findConcept toys_hierarchy ''toy''
     = Some (Concept ''toy'' [''owner'' \<mapsto> \<lparr>ptype = ''string'', pvalue = PString ''boy''\<rparr>] []) \<and>
   ''boy'' \<in> set (hierarchicalDescendantsOf toys_hierarchy ''child'') \<and>
   (case createFilterSchema no_regexp ''toys'' owner_is_a_child no_hierarchy of
      Inl e \<Rightarrow> False
    | Inr s \<Rightarrow> success s (JString ''anything'') \<and> success s (JBool True))"
proof -
  have "createFilterSchema no_regexp ''toys'' owner_is_a_child toys_resources
          = Inr (z_superRefine z_string (property_refinement toys_hierarchy owner_is_a_child))"
    by (simp add: createFilterSchema_def filter_value_schema_def owner_is_a_child_def toys_resources_def)
  moreover have "\<not> success (z_superRefine z_string (property_refinement toys_hierarchy owner_is_a_child))
                    (JString ''toy'')"
    by (simp add: success_property_refinement toy_facts owner_is_a_child_def)
  moreover have "createFilterSchema no_regexp ''toys'' owner_is_a_child no_hierarchy = Inr z_any"
    by (simp add: createFilterSchema_def filter_value_schema_def owner_is_a_child_def no_hierarchy_def)
  ultimately show ?thesis by (simp add: toy_facts success_z_any)
qed

theorem is_a_filter_semantics_witness:
  "fop \<lparr>fproperty = ''code'', fop = ''is-a'', fvalue = ''child''\<rparr> = ''is-a'' \<and>
   (\<exists>s. createFilterSchema no_regexp ''toys'' \<lparr>fproperty = ''code'', fop = ''is-a'', fvalue = ''child''\<rparr>
           toys_resources = Inr s \<and>
        success s (JString ''boy'') \<and> \<not> success s (JString ''toy'')) \<and>
   (\<exists>s. createFilterSchema no_regexp ''toys'' \<lparr>fproperty = ''code'', fop = ''is-a'', fvalue = ''child''\<rparr>
           no_hierarchy = Inr s \<and>
        success s (JString ''child'') \<and> \<not> success s (JString ''boy'')) \<and>
   fop owner_is_a_child = ''is-a'' \<and>
   (\<exists>s. createFilterSchema no_regexp ''toys'' owner_is_a_child toys_resources = Inr s \<and>
        \<not> success s (JString ''toy''))"
proof -
  let ?f = "\<lparr>fproperty = ''code'', fop = ''is-a'', fvalue = ''child''\<rparr>"
  have h: "fop ?f = ''is-a''" by simp
  have h2: "fop owner_is_a_child = ''is-a''" by (simp add: owner_is_a_child_def)
  have r: "toys_resources ''toys'' = Some toys_hierarchy" "no_hierarchy ''toys'' = None"
    by (simp_all add: toys_resources_def no_hierarchy_def)
  from is_a_filter_semantics[OF h, of no_regexp "''toys''" toys_resources "JString ''boy''"]
       is_a_filter_semantics[OF h, of no_regexp "''toys''" toys_resources "JString ''toy''"]
  have a: "\<exists>s. createFilterSchema no_regexp ''toys'' ?f toys_resources = Inr s \<and>
        success s (JString ''boy'') \<and> \<not> success s (JString ''toy'')"
    by (auto simp: r toy_facts)
  from is_a_filter_semantics[OF h, of no_regexp "''toys''" no_hierarchy "JString ''child''"]
       is_a_filter_semantics[OF h, of no_regexp "''toys''" no_hierarchy "JString ''boy''"]
  have b: "\<exists>s. createFilterSchema no_regexp ''toys'' ?f no_hierarchy = Inr s \<and>
        success s (JString ''child'') \<and> \<not> success s (JString ''boy'')"
    by (auto simp: r)
  from is_a_filter_semantics[OF h2, of no_regexp "''toys''" toys_resources "JString ''toy''"]
  have c: "\<exists>s. createFilterSchema no_regexp ''toys'' owner_is_a_child toys_resources = Inr s \<and>
        \<not> success s (JString ''toy'')"
    by (auto simp: r toy_facts owner_is_a_child_def)
  show ?thesis using h h2 a b c by blast
qed

subsection \<open>Removing overlapping definitions\<close>

lemma uniqueBy_loop_id_distinct:
  "distinct result \<Longrightarrow> set result \<subseteq> seen \<Longrightarrow>
   distinct (uniqueBy_loop (\<lambda>item. item) arr seen result)"
proof (induction arr arbitrary: seen result)
  case Nil
  then show ?case by simp
next
  case (Cons x xs)
  show ?case
  proof (cases "x \<in> seen")
    case True
    then show ?thesis using Cons by simp
  next
    case False
    have "distinct (result @ [x])" using Cons.prems False by auto
    moreover have "set (result @ [x]) \<subseteq> insert x seen" using Cons.prems(2) by auto
    ultimately show ?thesis using Cons.IH False by simp
  qed
qed

lemma distinct_unique: "distinct (unique arr)"
  by (simp add: unique_def uniqueBy_def uniqueBy_loop_id_distinct)

lemma insert_by_append:
  "\<forall>y \<in> set acc. \<not> cmp x y < 0 \<Longrightarrow> insert_by cmp x acc = acc @ [x]"
  by (induction acc) auto

lemma array_sort_all_equal:
  assumes "\<forall>x \<in> set xs. \<forall>y \<in> set xs. cmp x y = 0"
  shows "array_sort cmp xs = xs"
proof -
  have "set acc \<union> set ys \<subseteq> set xs \<Longrightarrow> foldl (\<lambda>acc x. insert_by cmp x acc) acc ys = acc @ ys" for acc ys
  proof (induction ys arbitrary: acc)
    case Nil
    then show ?case by simp
  next
    case (Cons y ys)
    have "\<forall>z \<in> set acc. \<not> cmp y z < 0" using assms Cons.prems by auto
    then have "insert_by cmp y acc = acc @ [y]" by (rule insert_by_append)
    moreover have "set (acc @ [y]) \<union> set ys \<subseteq> set xs" using Cons.prems by auto
    ultimately show ?case using Cons.IH[of "acc @ [y]"] by simp
  qed
  from this[of "[]" xs] show ?thesis by (simp add: array_sort_def)
qed

lemma set_array_sort_any: "set (array_sort cmp xs) = set xs"
proof -
  have "set (foldl (\<lambda>acc x. insert_by cmp x acc) acc ys) = set acc \<union> set ys" for acc ys
    by (induction ys arbitrary: acc) (auto simp: set_insert_by)
  then show ?thesis by (simp add: array_sort_def)
qed

lemma filterEnrichedFiles_subset:
  "set files \<subseteq> set E \<Longrightarrow> files \<noteq> [] \<Longrightarrow>
   set (filterEnrichedFiles E files g gs) \<subseteq> set E \<and> filterEnrichedFiles E files g gs \<noteq> []"
proof (induction gs arbitrary: files g)
  case Nil
  have "set (take 1 (filter g E)) \<subseteq> set E" by (meson filter_is_subset order_trans set_take_subset)
  moreover have "length (filter g E) = 1 \<Longrightarrow> take 1 (filter g E) \<noteq> []" by auto
  ultimately show ?case using Nil by (auto simp: Let_def)
next
  case (Cons h hs)
  have t: "set (take 1 (filter g E)) \<subseteq> set E" by (meson filter_is_subset order_trans set_take_subset)
  have n: "length (filter g E) = 1 \<Longrightarrow> take 1 (filter g E) \<noteq> []" by auto
  have rec: "1 < length files \<Longrightarrow> length (filter g E) = length E \<or> 1 < length (filter g E) \<Longrightarrow>
      set (filterEnrichedFiles E (filter g E) h hs) \<subseteq> set E \<and> filterEnrichedFiles E (filter g E) h hs \<noteq> []"
  proof -
    assume 1: "1 < length files" and 2: "length (filter g E) = length E \<or> 1 < length (filter g E)"
    have "length files \<le> length E \<or> E \<noteq> []" using Cons.prems by auto
    have "E \<noteq> []" using Cons.prems by auto
    then have "filter g E \<noteq> []" using 2 by auto
    then show ?thesis using Cons.IH[of "filter g E" h] by auto
  qed
  show ?case
  proof (cases "1 < length files")
    case False
    then show ?thesis using Cons.prems by simp
  next
    case True
    show ?thesis
    proof (cases "length (filter g E) = length E")
      case a: True
      then show ?thesis using True rec by (simp add: Let_def)
    next
      case b: False
      show ?thesis
      proof (cases "length (filter g E) = 1")
        case True2: True
        then show ?thesis using True b t n by (simp add: Let_def)
      next
        case c: False
        show ?thesis
        proof (cases "1 < length (filter g E)")
          case True3: True
          then show ?thesis using True b c rec by (simp add: Let_def)
        next
          case False
          then show ?thesis using True b c Cons.prems by (simp add: Let_def)
        qed
      qed
    qed
  qed
qed

lemma filterEnrichedFiles_uniform:
  assumes "\<forall>g' \<in> set (g # gs). (\<forall>e \<in> set E. g' e) \<or> (\<forall>e \<in> set E. \<not> g' e)"
    and "length E \<noteq> 1"
  shows "filterEnrichedFiles E E g gs = E"
  using assms
proof (induction gs arbitrary: g)
  case Nil
  then have "filter g E = E \<or> filter g E = []" by (auto simp: filter_empty_conv)
  then show ?case using Nil.prems(2) by (auto simp: Let_def)
next
  case (Cons h hs)
  then have d: "filter g E = E \<or> filter g E = []" by (auto simp: filter_empty_conv)
  have ih: "filterEnrichedFiles E E h hs = E" using Cons.IH[of h] Cons.prems by simp
  show ?case
  proof (cases "filter g E = E")
    case True
    then show ?thesis using ih by (simp add: Let_def)
  next
    case False
    then have e: "filter g E = []" using d by blast
    then show ?thesis using Cons.prems(2) by (auto simp: Let_def)
  qed
qed

declare filterEnrichedFiles.simps [simp del]

lemma selectForUrl_urls:
  assumes "u \<in> url ` set resourceFiles"
  shows "\<forall>f \<in> set (selectForUrl lc pj resourceFiles u). url f = u"
proof -
  define ov where "ov = filter (\<lambda>f. url f = u) resourceFiles"
  define E where "E = map (\<lambda>f. \<lparr>enriched_file = f, enriched_data = pj (filePath f)\<rparr>) ov"
  define F where "F = filterEnrichedFiles E E filterActiveOnly [filterNonRetiredOnly, filterNonExperimentalOnly]"
  define S where "S = array_sort (sortEnrichedFilesMostRecentFirst lc) F"
  have sel: "selectForUrl lc pj resourceFiles u =
      (if length ov = 1 then ov else if length F = 1 then [enriched_file (F ! 0)] else [enriched_file (S ! 0)])"
    by (simp add: selectForUrl_def Let_def ov_def E_def F_def S_def)
  have ne: "ov \<noteq> []" using assms by (auto simp: ov_def filter_empty_conv)
  then have Ene: "E \<noteq> []" by (simp add: E_def)
  have "set E \<subseteq> set E" by simp
  from filterEnrichedFiles_subset[OF this Ene, of filterActiveOnly "[filterNonRetiredOnly, filterNonExperimentalOnly]"]
  have sub: "set F \<subseteq> set E" and Fne: "F \<noteq> []" by (simp_all add: F_def)
  have urlov: "\<forall>f \<in> set ov. url f = u" by (simp add: ov_def)
  then have urlE: "\<forall>e \<in> set E. url (enriched_file e) = u" by (auto simp: E_def)
  have "F ! 0 \<in> set F" using Fne by simp
  then have a: "url (enriched_file (F ! 0)) = u" using sub urlE by blast
  have SF: "set S = set F" unfolding S_def by (rule set_array_sort_any)
  then have "S \<noteq> []" using Fne by auto
  then have "S ! 0 \<in> set S" by simp
  then have b: "url (enriched_file (S ! 0)) = u" using SF sub urlE by blast
  show ?thesis unfolding sel using a b urlov by simp
qed

lemma selectForUrl_same:
  assumes same: "\<forall>f \<in> set resourceFiles. \<forall>g \<in> set resourceFiles.
                    url f = u \<longrightarrow> url g = u \<longrightarrow> pj (filePath f) = pj (filePath g)"
    and reg: "u \<in> url ` set resourceFiles"
    and refl: "\<forall>d. lc d d = 0"
  shows "selectForUrl lc pj resourceFiles u = [hd (filter (\<lambda>f. url f = u) resourceFiles)]"
proof -
  define ov where "ov = filter (\<lambda>f. url f = u) resourceFiles"
  define E where "E = map (\<lambda>f. \<lparr>enriched_file = f, enriched_data = pj (filePath f)\<rparr>) ov"
  define F where "F = filterEnrichedFiles E E filterActiveOnly [filterNonRetiredOnly, filterNonExperimentalOnly]"
  define S where "S = array_sort (sortEnrichedFilesMostRecentFirst lc) F"
  have sel: "selectForUrl lc pj resourceFiles u =
      (if length ov = 1 then ov else if length F = 1 then [enriched_file (F ! 0)] else [enriched_file (S ! 0)])"
    by (simp add: selectForUrl_def Let_def ov_def E_def F_def S_def)
  have ne: "ov \<noteq> []" using reg by (auto simp: ov_def filter_empty_conv)
  show ?thesis
  proof (cases "length ov = 1")
    case True
    then obtain f where "ov = [f]" by (cases ov) auto
    then show ?thesis unfolding sel using True by (simp add: ov_def[symmetric])
  next
    case False
    define d0 where "d0 = pj (filePath (hd ov))"
    have hd_in: "hd ov \<in> set ov" using ne by simp
    have ovin: "\<forall>f \<in> set ov. f \<in> set resourceFiles \<and> url f = u" by (simp add: ov_def)
    have dataov: "pj (filePath f) = d0" if "f \<in> set ov" for f
      unfolding d0_def using same ovin hd_in that by blast
    have dataE: "enriched_data e = d0" if "e \<in> set E" for e
    proof -
      from that obtain f where "f \<in> set ov" "e = \<lparr>enriched_file = f, enriched_data = pj (filePath f)\<rparr>"
        unfolding E_def by auto
      then show ?thesis using dataov by simp
    qed
    have u1: "(\<forall>e \<in> set E. filterActiveOnly e) \<or> (\<forall>e \<in> set E. \<not> filterActiveOnly e)"
      by (cases "status d0 = Some ''active''") (simp_all add: filterActiveOnly_def dataE)
    have u2: "(\<forall>e \<in> set E. filterNonRetiredOnly e) \<or> (\<forall>e \<in> set E. \<not> filterNonRetiredOnly e)"
      by (cases "status d0 = Some ''retired''") (simp_all add: filterNonRetiredOnly_def dataE)
    have u3: "(\<forall>e \<in> set E. filterNonExperimentalOnly e) \<or> (\<forall>e \<in> set E. \<not> filterNonExperimentalOnly e)"
      by (cases "experimental d0 = Some False") (simp_all add: filterNonExperimentalOnly_def dataE)
    have uni: "\<forall>g' \<in> set (filterActiveOnly # [filterNonRetiredOnly, filterNonExperimentalOnly]).
                 (\<forall>e \<in> set E. g' e) \<or> (\<forall>e \<in> set E. \<not> g' e)"
      using u1 u2 u3 by simp
    have lenE: "length E \<noteq> 1" using False by (simp add: E_def)
    have F: "F = E" unfolding F_def using uni lenE by (rule filterEnrichedFiles_uniform)
    have "\<forall>x \<in> set E. \<forall>y \<in> set E. sortEnrichedFilesMostRecentFirst lc x y = 0"
    proof (intro ballI)
      fix x y assume "x \<in> set E" "y \<in> set E"
      then have "enriched_data x = d0" "enriched_data y = d0" using dataE by blast+
      then show "sortEnrichedFilesMostRecentFirst lc x y = 0"
        using refl by (simp add: sortEnrichedFilesMostRecentFirst_def split: option.splits)
    qed
    then have S: "S = E" unfolding S_def F by (rule array_sort_all_equal)
    have "enriched_file (E ! 0) = hd ov" using ne by (simp add: E_def hd_conv_nth)
    then show ?thesis unfolding sel using False F S lenE by (simp add: ov_def[symmetric])
  qed
qed

lemma filter_concat_select:
  assumes "\<forall>u' \<in> set us. \<forall>f \<in> set (sel u'). url f = u'"
    and "distinct us" and "u \<in> set us"
  shows "filter (\<lambda>f. url f = u) (concat (map sel us)) = sel u"
  using assms
proof (induction us)
  case Nil
  then show ?case by simp
next
  case (Cons a as)
  show ?case
  proof (cases "a = u")
    case True
    then have "u \<notin> set as" using Cons.prems(2) by simp
    then have "\<forall>u' \<in> set as. \<forall>f \<in> set (sel u'). url f \<noteq> u" using Cons.prems(1) by auto
    then have "filter (\<lambda>f. url f = u) (concat (map sel as)) = []"
      by (auto simp: filter_empty_conv)
    moreover have "filter (\<lambda>f. url f = u) (sel u) = sel u"
      using Cons.prems(1) True by (auto simp: filter_id_conv)
    ultimately show ?thesis using True by simp
  next
    case False
    then have "filter (\<lambda>f. url f = u) (sel a) = []"
      using Cons.prems(1) by (auto simp: filter_empty_conv)
    moreover have "filter (\<lambda>f. url f = u) (concat (map sel as)) = sel u"
      using Cons.IH Cons.prems False by auto
    ultimately show ?thesis by simp
  qed
qed

text \<open>
  Claim C8, as the code has it. When all registrations of a URL have the same parsed
  metadata (and \<open>localeCompare\<close> of a string with itself is 0), the file that
  \<open>removeOverlappingDefinitions\<close> keeps for that URL is the first registration of the
  URL in the input list: the final tie is broken by the position in the input, and the
  file path is not consulted.
\<close>

theorem removeOverlappingDefinitions_selects_first:
  assumes "\<forall>f \<in> set resourceFiles. \<forall>g \<in> set resourceFiles.
             url f = u \<longrightarrow> url g = u \<longrightarrow> parseJson (filePath f) = parseJson (filePath g)"
    and "u \<in> url ` set resourceFiles"
    and "\<forall>d. localeCompare d d = 0"
  shows "filter (\<lambda>f. url f = u) (removeOverlappingDefinitions localeCompare parseJson resourceFiles)
           = [hd (filter (\<lambda>f. url f = u) resourceFiles)]"
proof -
  let ?us = "unique (map url resourceFiles)"
  have s: "set ?us = url ` set resourceFiles" by (simp add: set_unique)
  have "\<forall>u' \<in> set ?us. \<forall>f \<in> set (selectForUrl localeCompare parseJson resourceFiles u'). url f = u'"
    using selectForUrl_urls s by blast
  moreover have "distinct ?us" by (rule distinct_unique)
  moreover have "u \<in> set ?us" using assms(2) s by simp
  ultimately have "filter (\<lambda>f. url f = u)
       (concat (map (selectForUrl localeCompare parseJson resourceFiles) ?us))
     = selectForUrl localeCompare parseJson resourceFiles u"
    by (rule filter_concat_select)
  moreover have "selectForUrl localeCompare parseJson resourceFiles u
       = [hd (filter (\<lambda>f. url f = u) resourceFiles)]"
    using selectForUrl_same[where resourceFiles = resourceFiles and u = u and pj = parseJson
        and lc = localeCompare, OF assms] .
  ultimately show ?thesis
    unfolding removeOverlappingDefinitions_def by (rule trans)
qed

lemma registration_facts:
  "url (registration d) = ''http://example.org/x''"
  "filePath (registration d) = d @ ''/StructureDefinition-x.json''"
  by (simp_all add: registration_def)

lemma same_metadata_registrations:
  "\<forall>f \<in> set fs. \<forall>g \<in> set fs. url f = u \<longrightarrow> url g = u \<longrightarrow>
     same_metadata (filePath f) = same_metadata (filePath g)"
  by (simp add: same_metadata_def)

lemma codePointCompare_refl: "\<forall>d. codePointCompare d d = 0"
  by (simp add: codePointCompare_def)

lemma unique_two_urls: "unique [''http://example.org/x'', ''http://example.org/x''] = [''http://example.org/x'']"
  by (simp add: unique_def uniqueBy_def)

lemma select_registration:
  "selectForUrl codePointCompare same_metadata [registration d1, registration d2] ''http://example.org/x''
     = [registration d1]"
proof -
  have "''http://example.org/x'' \<in> url ` set [registration d1, registration d2]"
    by (simp add: registration_facts)
  from selectForUrl_same[where resourceFiles = "[registration d1, registration d2]"
      and u = "''http://example.org/x''" and pj = same_metadata and lc = codePointCompare,
      OF same_metadata_registrations this codePointCompare_refl]
  show ?thesis by (simp add: registration_facts)
qed

text \<open>
  Claim C8 fails as stated: two registrations of one URL with identical status,
  experimental flag and date, in two packages. Either input order keeps the registration
  that comes first, so the two permutations of the input select different files, where a
  tie broken by file path would select the one in \<open>pkg-a\<close> both times.
\<close>

theorem dedupe_order_counterexample:
  "removeOverlappingDefinitions codePointCompare same_metadata
      [registration ''pkg-a'', registration ''pkg-b''] = [registration ''pkg-a''] \<and>
   removeOverlappingDefinitions codePointCompare same_metadata
      [registration ''pkg-b'', registration ''pkg-a''] = [registration ''pkg-b''] \<and>
   registration ''pkg-a'' \<noteq> registration ''pkg-b'' \<and>
   filePath (registration ''pkg-a'') < filePath (registration ''pkg-b'')"
proof -
  have c: "registration ''pkg-a'' \<noteq> registration ''pkg-b''" by (simp add: registration_def)
  have d: "filePath (registration ''pkg-a'') < filePath (registration ''pkg-b'')"
    by (simp add: registration_def)
  have "removeOverlappingDefinitions codePointCompare same_metadata [registration d1, registration d2]
          = [registration d1]" for d1 d2
    by (simp add: removeOverlappingDefinitions_def registration_facts unique_two_urls select_registration)
  then show ?thesis using c d by simp
qed

theorem removeOverlappingDefinitions_selects_first_witness:
  "filter (\<lambda>f. url f = ''http://example.org/x'')
     (removeOverlappingDefinitions codePointCompare same_metadata
        [registration ''pkg-b'', registration ''pkg-a''])
     = [registration ''pkg-b'']"
proof -
  have h1: "\<forall>f \<in> set [registration ''pkg-b'', registration ''pkg-a''].
      \<forall>g \<in> set [registration ''pkg-b'', registration ''pkg-a''].
        url f = ''http://example.org/x'' \<longrightarrow> url g = ''http://example.org/x'' \<longrightarrow>
        same_metadata (filePath f) = same_metadata (filePath g)"
    by (rule same_metadata_registrations)
  have h2: "''http://example.org/x'' \<in> url ` set [registration ''pkg-b'', registration ''pkg-a'']"
    by (simp add: registration_facts)
  have h3: "\<forall>d. codePointCompare d d = 0" by (rule codePointCompare_refl)
  from removeOverlappingDefinitions_selects_first[where
      resourceFiles = "[registration ''pkg-b'', registration ''pkg-a'']"
      and u = "''http://example.org/x''" and parseJson = same_metadata
      and localeCompare = codePointCompare, OF h1 h2 h3]
  show ?thesis
    by (simp add: registration_facts)
qed

subsection \<open>The facade: validation without a profile in scope\<close>

lemma get_property_defined:
  assumes "resource \<noteq> JNull" and "resource \<noteq> JUndefined"
  shows "\<exists>v. get_property resource k = Inr v"
  using assms by (cases resource) simp_all


lemma validate_null_throws:
  assumes "schemas \<noteq> []"
    and "loadResource isFilePath readJSONFromFilePath jsonParse document = Inr JNull"
  shows "\<exists>message. validate isFilePath readJSONFromFilePath jsonParse toString schemas document options
           = Inl (TypeError message)"
  using assms
  by (cases "ignoresSelfDeclared options")
     (simp_all add: validate_def effectiveProfiles_def declaredProfile_def)


lemmas validate_example_defs =
  no_file_def unreadable_def parse_null_def patient_schemas_def malformed_patient_def
  loadResource_def requestedProfiles_def ignoresSelfDeclared_def declaredProfile_def

lemma validate_null_example:
  "validate no_file unreadable parse_null plain_key patient_schemas (JString ''null'') None
     = Inl (TypeError ''Cannot read properties of null (reading meta)'')"
  by (simp add: validate_def effectiveProfiles_def validate_example_defs)


subsection \<open>Choice-of-type fields\<close>

lemma keys_pushRefinement [simp]: "fst (pushRefinement r st) = fst st"
  by (simp add: pushRefinement_def split: option.splits)





































subsection \<open>Compile-time errors\<close>

lemma convert_without_root:
  assumes "List.find (\<lambda>element. element_id element = Some (sd_type sd))
             (case snapshot_element sd of None \<Rightarrow> [] | Some es \<Rightarrow> es) = None"
  shows "convertStructureDefinitionToIntermediateFormat convertElements sd
           = Inl (Error (''Could not find root element for StructureDefinition '' @ sd_url sd))"
  using assms by (simp add: convertStructureDefinitionToIntermediateFormat_def)

lemma optional_any_accepts: "p_optional p_any v = parse_ok v"
  by (simp add: p_optional_def p_any_def)

lemma buildSchemaForComplexType_caught:
  assumes "convertStructureDefinitionToIntermediateFormat convertElements sd = Inl e \<or>
           (\<exists>imf. convertStructureDefinitionToIntermediateFormat convertElements sd = Inr imf \<and>
                  convertToSchema imf = Inl e)"
  shows "buildSchemaForComplexType convertElements convertToSchema sd v = parse_ok v"
  using assms by (auto simp add: buildSchemaForComplexType_def optional_any_accepts)

lemma collectSchemas_invalid:
  assumes "inc \<in> set incs" and "\<not> isValueSetInclude inc" and "\<not> isSystemInclude inc"
  shows "\<exists>e. collectSchemas compileRegExp incs resolver lookup defaultSchema = Inl e"
  using assms(1)
proof (induction incs)
  case Nil
  then show ?case by simp
next
  case (Cons first rest)
  show ?case
  proof (cases "first = inc")
    case True
    then show ?thesis using assms(2,3) by (simp add: isSystemInclude_def)
  next
    case False
    then have "inc \<in> set rest" using Cons.prems by simp
    then obtain e where "collectSchemas compileRegExp rest resolver lookup defaultSchema = Inl e"
      using Cons.IH by blast
    then show ?thesis by (simp split: sum.splits option.splits)
  qed
qed

lemma processValueSet_invalid:
  assumes "inc \<in> set (includes_of vs)" and "\<not> isValueSetInclude inc" and "\<not> isSystemInclude inc"
  shows "\<exists>e. processValueSet compileRegExp file vs resolver lookup = Inl e"
proof -
  from collectSchemas_invalid[OF assms] obtain e where
    "collectSchemas compileRegExp (includes_of vs) resolver lookup (z_string_min 1) = Inl e"
    by blast
  then have "generateSchemaForIncludes compileRegExp vs resolver lookup = Inl e"
    by (simp add: generateSchemaForIncludes_def includes_of_def)
  then show ?thesis by (simp add: processValueSet_def)
qed

lemma buildSchemaForStructureDefinition_caught:
  assumes k: "sd_kind sd = ''complex-type'' \<or> sd_kind sd = ''resource'' \<or> sd_kind sd = ''logical''"
    and e: "convertStructureDefinitionToIntermediateFormat convertElements sd = Inl e \<or>
           (\<exists>imf. convertStructureDefinitionToIntermediateFormat convertElements sd = Inr imf \<and>
                  convertToSchema imf = Inl e)"
  shows "\<exists>schema. buildSchemaForStructureDefinition buildSchemaForPrimitiveType convertElements
                    convertToSchema sd = Inr schema \<and> (\<forall>v. schema v = parse_ok v)"
proof -
  have "buildSchemaForStructureDefinition buildSchemaForPrimitiveType convertElements
          convertToSchema sd = Inr (buildSchemaForComplexType convertElements convertToSchema sd)"
    using k by (auto simp: buildSchemaForStructureDefinition_def)
  then show ?thesis using buildSchemaForComplexType_caught[OF e] by simp
qed

text \<open>
  Claim C9, as the code has it. A StructureDefinition without an element for its type
  makes the conversion to the intermediate format throw; whatever that conversion or the
  conversion to a schema throws is caught by \<open>buildSchemaForComplexType\<close>, whose schema
  then accepts every value, and so does the schema of \<open>buildSchemaForStructureDefinition\<close>
  for the kinds \<open>complex-type\<close>, \<open>resource\<close> and \<open>logical\<close>. A ValueSet with an
  include that names neither a system nor a ValueSet makes \<open>processResource\<close> of the
  ValueSet compiler fail: nothing in that compiler catches the error of \<open>collectSchemas\<close>,
  and no schema is handed to \<open>contribute\<close>.
\<close>

theorem compile_errors_caught_or_thrown:
  "(List.find (\<lambda>element. element_id element = Some (sd_type sd))
      (case snapshot_element sd of None \<Rightarrow> [] | Some es \<Rightarrow> es) = None \<longrightarrow>
      (\<exists>e. convertStructureDefinitionToIntermediateFormat convertElements sd = Inl e)) \<and>
   (\<forall>e. convertStructureDefinitionToIntermediateFormat convertElements sd = Inl e \<or>
         (\<exists>imf. convertStructureDefinitionToIntermediateFormat convertElements sd = Inr imf \<and>
                convertToSchema imf = Inl e) \<longrightarrow>
        (\<forall>v. buildSchemaForComplexType convertElements convertToSchema sd v = parse_ok v) \<and>
        (sd_kind sd = ''complex-type'' \<or> sd_kind sd = ''resource'' \<or> sd_kind sd = ''logical'' \<longrightarrow>
           (\<exists>schema. buildSchemaForStructureDefinition buildSchemaForPrimitiveType convertElements
                       convertToSchema sd = Inr schema \<and> (\<forall>v. schema v = parse_ok v)))) \<and>
   (\<forall>inc. inc \<in> set (includes_of vs) \<longrightarrow> \<not> isValueSetInclude inc \<longrightarrow> \<not> isSystemInclude inc \<longrightarrow>
      (\<exists>e. processValueSet compileRegExp file vs resolver lookup = Inl e))"
proof -
  have c1: "List.find (\<lambda>element. element_id element = Some (sd_type sd))
      (case snapshot_element sd of None \<Rightarrow> [] | Some es \<Rightarrow> es) = None \<longrightarrow>
      (\<exists>e. convertStructureDefinitionToIntermediateFormat convertElements sd = Inl e)"
    using convert_without_root[of sd convertElements] by blast
  have c2: "\<forall>e. convertStructureDefinitionToIntermediateFormat convertElements sd = Inl e \<or>
         (\<exists>imf. convertStructureDefinitionToIntermediateFormat convertElements sd = Inr imf \<and>
                convertToSchema imf = Inl e) \<longrightarrow>
        (\<forall>v. buildSchemaForComplexType convertElements convertToSchema sd v = parse_ok v) \<and>
        (sd_kind sd = ''complex-type'' \<or> sd_kind sd = ''resource'' \<or> sd_kind sd = ''logical'' \<longrightarrow>
           (\<exists>schema. buildSchemaForStructureDefinition buildSchemaForPrimitiveType convertElements
                       convertToSchema sd = Inr schema \<and> (\<forall>v. schema v = parse_ok v)))"
  proof (intro allI impI conjI)
    fix e v
    assume "convertStructureDefinitionToIntermediateFormat convertElements sd = Inl e \<or>
         (\<exists>imf. convertStructureDefinitionToIntermediateFormat convertElements sd = Inr imf \<and>
                convertToSchema imf = Inl e)"
    then show "buildSchemaForComplexType convertElements convertToSchema sd v = parse_ok v"
      by (rule buildSchemaForComplexType_caught)
  next
    fix e
    assume e: "convertStructureDefinitionToIntermediateFormat convertElements sd = Inl e \<or>
         (\<exists>imf. convertStructureDefinitionToIntermediateFormat convertElements sd = Inr imf \<and>
                convertToSchema imf = Inl e)"
      and k: "sd_kind sd = ''complex-type'' \<or> sd_kind sd = ''resource'' \<or> sd_kind sd = ''logical''"
    from buildSchemaForStructureDefinition_caught[OF k e]
    show "\<exists>schema. buildSchemaForStructureDefinition buildSchemaForPrimitiveType convertElements
                       convertToSchema sd = Inr schema \<and> (\<forall>v. schema v = parse_ok v)" .
  qed
  have c3: "\<forall>inc. inc \<in> set (includes_of vs) \<longrightarrow> \<not> isValueSetInclude inc \<longrightarrow> \<not> isSystemInclude inc \<longrightarrow>
      (\<exists>e. processValueSet compileRegExp file vs resolver lookup = Inl e)"
    using processValueSet_invalid by blast
  show ?thesis by (rule conjI, rule c1, rule conjI, rule c2, rule c3)
qed

text \<open>
  Claim C9 fails as stated: for a ValueSet with an include that names neither a system nor a
  ValueSet the compiler fails with the error of \<open>collectSchemas\<close> instead of handing a
  schema that accepts everything to \<open>contribute\<close>.
\<close>

theorem invalid_include_counterexample:
  "processValueSet no_regexp invalid_include_file invalid_include_valueset nothing_compiled
     no_codesystem = Inl (Error ''Invalid include element'')"
  by (simp add: processValueSet_def generateSchemaForIncludes_def invalid_include_valueset_def
      invalid_include_file_def isValueSetInclude_def)

text \<open>
  The theorem at a StructureDefinition without a root element and at the ValueSet with
  the invalid include.
\<close>

theorem compile_errors_caught_or_thrown_witness:
  "buildSchemaForComplexType convert_nothing reject_everything rootless (JString ''anything'')
     = parse_ok (JString ''anything'') \<and>
   (\<exists>schema. buildSchemaForStructureDefinition string_primitive convert_nothing reject_everything
                rootless = Inr schema \<and>
              schema (JString ''anything'') = parse_ok (JString ''anything'')) \<and>
   (\<exists>e. processValueSet no_regexp invalid_include_file invalid_include_valueset nothing_compiled
          no_codesystem = Inl e)"
proof -
  note facts = compile_errors_caught_or_thrown[of rootless convert_nothing reject_everything
      string_primitive invalid_include_valueset no_regexp invalid_include_file nothing_compiled
      no_codesystem]
  have root: "List.find (\<lambda>element. element_id element = Some (sd_type rootless))
      (case snapshot_element rootless of None \<Rightarrow> [] | Some es \<Rightarrow> es) = None"
    by (simp add: rootless_def)
  with facts obtain e where
    e: "convertStructureDefinitionToIntermediateFormat convert_nothing rootless = Inl e"
    by blast
  have k: "sd_kind rootless = ''complex-type''" by (simp add: rootless_def)
  from facts e have first: "buildSchemaForComplexType convert_nothing reject_everything rootless
      (JString ''anything'') = parse_ok (JString ''anything'')"
    by blast
  from facts e k have second: "\<exists>schema. buildSchemaForStructureDefinition string_primitive
      convert_nothing reject_everything rootless = Inr schema \<and>
      schema (JString ''anything'') = parse_ok (JString ''anything'')"
    by blast
  let ?inc = "\<lparr>system = None, concept = None, filter_list = None, valueSet = None\<rparr>"
  have inc: "?inc \<in> set (includes_of invalid_include_valueset)"
    "\<not> isValueSetInclude ?inc" "\<not> isSystemInclude ?inc"
    by (simp_all add: includes_of_def invalid_include_valueset_def isValueSetInclude_def
        isSystemInclude_def)
  from facts inc have third: "\<exists>e. processValueSet no_regexp invalid_include_file
      invalid_include_valueset nothing_compiled no_codesystem = Inl e"
    by blast
  from first second third show ?thesis by blast
qed

end
